theory Spec2Isabelle
  imports Main
begin

section \<open>Python strings\<close>

text \<open>
  \<^verbatim>\<open>s.endswith(suffix)\<close> and \<^verbatim>\<open>s.endswith((s1, ..., sn))\<close>.
\<close>

definition endswith :: "string \<Rightarrow> string \<Rightarrow> bool" where
  "endswith s suf = (length suf \<le> length s \<and> drop (length s - length suf) s = suf)"

definition endswith_any :: "string \<Rightarrow> string list \<Rightarrow> bool" where
  "endswith_any s sufs = list_ex (endswith s) sufs"

text \<open>
  \<^verbatim>\<open>s.split(c)\<close> for a separator of one character: the pieces between the
  occurrences of \<open>c\<close>; the result is never empty, so \<^verbatim>\<open>[-1]\<close> does not raise.
\<close>

fun split_on :: "char \<Rightarrow> string \<Rightarrow> string list" where
  "split_on c [] = [[]]"
| "split_on c (x # xs) =
     (if x = c then [] # split_on c xs
      else (case split_on c xs of
              [] \<Rightarrow> [[x]]
            | w # ws \<Rightarrow> (x # w) # ws))"

text \<open>
  \<^verbatim>\<open>s.replace(old, new)\<close>: every occurrence of \<open>old\<close>, scanning from the left
  without overlap. With an empty \<open>old\<close> Python puts \<open>new\<close> before every character and
  at the end.
\<close>

function str_replace :: "string \<Rightarrow> string \<Rightarrow> string \<Rightarrow> string" where
  "str_replace old new s =
     (if old = [] then new @ concat (map (\<lambda>c. c # new) s)
      else if s = [] then []
      else if take (length old) s = old
        then new @ str_replace old new (drop (length old) s)
      else hd s # str_replace old new (tl s))"
  by pat_completeness auto
termination
  by (relation "measure (\<lambda>(old, new, s). length s)") auto

section \<open>The remote API as the program sees it\<close>

text \<open>
  A parsed JSON value, as \<^verbatim>\<open>response.json()\<close> returns it: a dict is the list of
  its items, looked up from the left.
\<close>

datatype json =
    JNull
  | JBool bool
  | JNum int
  | JStr string
  | JArr "json list"
  | JObj "(string \<times> json) list"

text \<open>
  What \<^verbatim>\<open>session.get\<close> gives a caller: an exception (connection, timeout), or a
  response with its status and its body, \<open>None\<close> where \<^verbatim>\<open>response.json()\<close> raises.
\<close>

datatype response =
    Transport_error
  | Response (status: int) (body: "json option")

text \<open>
  What a coroutine does that another task or the remote can observe: taking and giving
  back the semaphore, sending a GET, receiving its answer, sleeping.
\<close>

datatype event =
    Acquire
  | Release
  | Get string
  | Recv response
  | Sleep nat

text \<open>
  A call returns, raises, or is still waiting for an answer when the responses known so
  far are used up.
\<close>

datatype 'a outcome = Returned 'a | Raised | Pending

type_synonym 'a run = "'a outcome \<times> event list \<times> response list"

text \<open>\<^verbatim>\<open>obj[key]\<close>: \<open>None\<close> where Python raises (a missing key, or not a dict).\<close>

definition subscript :: "json \<Rightarrow> string \<Rightarrow> json option" where
  "subscript obj k = (case obj of JObj kvs \<Rightarrow> map_of kvs k | _ \<Rightarrow> None)"

text \<open>
  \<^verbatim>\<open>for item in contents\<close>: the elements of a list, the keys of a dict, the characters
  of a string; \<open>None\<close> where the value is not iterable.
\<close>

definition iterate :: "json \<Rightarrow> json list option" where
  "iterate j =
     (case j of
        JArr xs \<Rightarrow> Some xs
      | JObj kvs \<Rightarrow> Some (map (\<lambda>k. JStr k) (remdups (map fst kvs)))
      | JStr s \<Rightarrow> Some (map (\<lambda>c. JStr [c]) s)
      | _ \<Rightarrow> None)"

section \<open>get_file_content\<close>

definition api_base :: "string \<Rightarrow> string" where
  "api_base repo_url = str_replace ''github.com'' ''api.github.com/repos'' repo_url"

text \<open>
  \<^verbatim>\<open>try: ... except Exception: return default\<close> around a body.
\<close>

definition except_return :: "'a \<Rightarrow> 'a run \<Rightarrow> 'a run" where
  "except_return d r =
     (case r of (out, es, rs) \<Rightarrow>
        (case out of Raised \<Rightarrow> (Returned d, es, rs) | _ \<Rightarrow> (out, es, rs)))"

text \<open>
  The first argument stands for \<^verbatim>\<open>b64decode(s).decode('utf-8')\<close> of the standard
  library: the decoded text, or \<open>None\<close> where either step raises. The responses are
  those the remote gives to this task's calls, in the order of the calls; the result
  carries the events of the call and the responses not yet consumed. With no response
  left the call is waiting for its answer. The \<^verbatim>\<open>print\<close> calls, the request
  headers and the timeout value are left out; a timeout is a transport error.

  The retry after a 403 is \<^verbatim>\<open>return await get_file_content(...)\<close>: each retry
  runs nested in the call before it, and the interpreter allows only so many nested
  calls. The second argument is the number of nested retries there is room for. A retry
  beyond it raises \<^verbatim>\<open>RecursionError\<close>, an \<^verbatim>\<open>Exception\<close>, inside the
  \<^verbatim>\<open>try\<close> of the call that makes it, which returns the empty string; so does every
  call around it. The model raises it at the nested call, after the sleep; where exactly
  the innermost call raises depends on the interpreter and on the HTTP library.
\<close>

fun get_file_content ::
  "(string \<Rightarrow> string option) \<Rightarrow> nat \<Rightarrow> string \<Rightarrow> json \<Rightarrow> response list \<Rightarrow> string run"
where
  "get_file_content b64 room repo_url path rs =
     except_return ''''
       (case path of
          JStr p \<Rightarrow>
            (let api_url = api_base repo_url @ ''/contents/'' @ p in
             case rs of
               [] \<Rightarrow> (Pending, [Get api_url], [])
             | r # rs' \<Rightarrow>
                 (case r of
                    Transport_error \<Rightarrow> (Raised, [Get api_url, Recv r], rs')
                  | Response st bd \<Rightarrow>
                      if st = 404 then (Returned '''', [Get api_url, Recv r], rs')
                      else if st = 403 then
                        (if room = 0 then (Raised, [Get api_url, Recv r, Sleep 60], rs')
                         else
                           (case get_file_content b64 (room - 1) repo_url path rs' of
                              (out, es, rs'') \<Rightarrow>
                                (out, [Get api_url, Recv r, Sleep 60] @ es, rs'')))
                      else if st = 200 then
                        (case bd of
                           None \<Rightarrow> (Raised, [Get api_url, Recv r], rs')
                         | Some data \<Rightarrow>
                             (case data of
                                JObj kvs \<Rightarrow>
                                  (case map_of kvs ''content'' of
                                     None \<Rightarrow> (Returned '''', [Get api_url, Recv r], rs')
                                   | Some c \<Rightarrow>
                                       (case c of
                                          JStr s \<Rightarrow>
                                            (case b64 s of
                                               None \<Rightarrow> (Raised, [Get api_url, Recv r], rs')
                                             | Some text \<Rightarrow>
                                                 (Returned text, [Get api_url, Recv r], rs'))
                                        | _ \<Rightarrow> (Raised, [Get api_url, Recv r], rs')))
                              | _ \<Rightarrow> (Returned '''', [Get api_url, Recv r], rs')))
                      else (Returned '''', [Get api_url, Recv r], rs')))
        | _ \<Rightarrow> (Raised, [], rs))"

declare get_file_content.simps [simp del]

section \<open>process_repo\<close>

text \<open>A repository descriptor of the catalog (a dict with these seven keys).\<close>

record repo =
  url :: string
  name :: string
  description :: string
  language :: string
  stars :: int
  topics :: "string list"
  frameworks :: "string list"

text \<open>
  The document built for one file. \<^verbatim>\<open>created_at\<close> (the wall clock when the
  document is built) is left out: nothing below depends on it.
\<close>

record metadata =
  size_md :: int
  type_md :: string
  extension :: string

record doc =
  repo_name :: string
  repo_url :: string
  file_name :: string
  file_path :: json
  doc_language :: string
  content :: string
  doc_topics :: "string list"
  doc_frameworks :: "string list"
  doc_stars :: int
  metadata :: metadata

definition code_extensions :: "string list" where
  "code_extensions = [''.js'', ''.ts'', ''.py'', ''.java'', ''.rs'', ''.go'', ''.cpp'']"

text \<open>
  The condition \<^verbatim>\<open>item["type"] == "file" and item["name"].endswith((...))\<close>;
  \<open>None\<close> where evaluating it raises. The right operand is evaluated only when the
  left one holds.
\<close>

definition is_code_file :: "json \<Rightarrow> bool option" where
  "is_code_file item =
     (case subscript item ''type'' of
        None \<Rightarrow> None
      | Some t \<Rightarrow>
          if t = JStr ''file'' then
            (case subscript item ''name'' of
               Some (JStr n) \<Rightarrow> Some (endswith_any n code_extensions)
             | _ \<Rightarrow> None)
          else Some False)"

definition make_doc :: "repo \<Rightarrow> string \<Rightarrow> json \<Rightarrow> string \<Rightarrow> doc" where
  "make_doc repo n path text =
     \<lparr> repo_name = name repo,
       repo_url = url repo,
       file_name = n,
       file_path = path,
       doc_language = language repo,
       content = text,
       doc_topics = topics repo,
       doc_frameworks = frameworks repo,
       doc_stars = stars repo,
       metadata = \<lparr> size_md = int (length text),
                    type_md = ''code'',
                    extension = last (split_on (CHR ''.'') n) \<rparr> \<rparr>"

text \<open>
  The \<^verbatim>\<open>for item in contents\<close> loop, with \<^verbatim>\<open>processed_files\<close> as accumulator.
  Each file is fetched, and awaited, before the next item is looked at.
\<close>

fun process_items ::
  "(string \<Rightarrow> string option) \<Rightarrow> nat \<Rightarrow> repo \<Rightarrow> json list \<Rightarrow> doc list \<Rightarrow> response list
   \<Rightarrow> doc list run"
where
  "process_items b64 room repo [] processed_files rs = (Returned processed_files, [], rs)"
| "process_items b64 room repo (item # items) processed_files rs =
     (case is_code_file item of
        None \<Rightarrow> (Raised, [], rs)
      | Some False \<Rightarrow> process_items b64 room repo items processed_files rs
      | Some True \<Rightarrow>
          (case (subscript item ''name'', subscript item ''path'') of
             (Some (JStr n), Some path) \<Rightarrow>
               (case get_file_content b64 room (url repo) path rs of
                  (Returned text, es, rs') \<Rightarrow>
                    (case process_items b64 room repo items
                            (if text \<noteq> [] then processed_files @ [make_doc repo n path text]
                             else processed_files) rs' of
                       (out, es', rs'') \<Rightarrow> (out, es @ es', rs''))
                | (Raised, es, rs') \<Rightarrow> (Raised, es, rs')
                | (Pending, es, rs') \<Rightarrow> (Pending, es, rs'))
           | _ \<Rightarrow> (Raised, [], rs)))"

text \<open>
  \<^verbatim>\<open>async with semaphore: body\<close>: the semaphore is taken before the body and given
  back when the body is left, by a return or by an exception. A body that is still
  waiting has not given it back.
\<close>

definition async_with_semaphore :: "'a run \<Rightarrow> 'a run" where
  "async_with_semaphore r =
     (case r of (out, es, rs) \<Rightarrow>
        (out, Acquire # es @ (if out = Pending then [] else [Release]), rs))"

text \<open>The body of the \<^verbatim>\<open>async with semaphore\<close> block of \<^verbatim>\<open>process_repo\<close>.\<close>

definition process_repo_body ::
  "(string \<Rightarrow> string option) \<Rightarrow> nat \<Rightarrow> repo \<Rightarrow> response list \<Rightarrow> doc list run"
where
  "process_repo_body b64 room repo rs =
     (let api_url = api_base (url repo) @ ''/contents'' in
      case rs of
        [] \<Rightarrow> (Pending, [Get api_url], [])
      | r # rs' \<Rightarrow>
          (case r of
             Transport_error \<Rightarrow> (Raised, [Get api_url, Recv r], rs')
           | Response st bd \<Rightarrow>
               if st \<noteq> 200 then (Returned [], [Get api_url, Recv r], rs')
               else
                 (case bd of
                    None \<Rightarrow> (Raised, [Get api_url, Recv r], rs')
                  | Some contents \<Rightarrow>
                      (case iterate contents of
                         None \<Rightarrow> (Raised, [Get api_url, Recv r], rs')
                       | Some items \<Rightarrow>
                           (case process_items b64 room repo items [] rs' of
                              (out, es, rs'') \<Rightarrow>
                                (out, [Get api_url, Recv r] @ es, rs''))))))"

definition process_repo ::
  "(string \<Rightarrow> string option) \<Rightarrow> nat \<Rightarrow> repo \<Rightarrow> response list \<Rightarrow> doc list run"
where
  "process_repo b64 room repo rs =
     except_return [] (async_with_semaphore (process_repo_body b64 room repo rs))"

section \<open>main\<close>

definition MAX_CONCURRENT_REQUESTS :: nat where
  "MAX_CONCURRENT_REQUESTS = 3"

definition batch_size :: nat where
  "batch_size = 100"

text \<open>
  The calls \<^verbatim>\<open>main\<close> makes on the document store, in order: \<^verbatim>\<open>MongoClient(...)\<close>,
  \<^verbatim>\<open>create_index\<close> with its key fields (no call passes an option such as uniqueness),
  \<^verbatim>\<open>insert_many\<close> with its batch, \<^verbatim>\<open>client.close()\<close>.
\<close>

datatype sink_call =
    Connect
  | Create_index "string list"
  | Insert_many "doc list"
  | Close

definition index_calls :: "sink_call list" where
  "index_calls =
     [Create_index [''content''],
      Create_index [''language''],
      Create_index [''repo_name''],
      Create_index [''file_name''],
      Create_index [''language'', ''repo_name'', ''file_name''],
      Create_index [''topics''],
      Create_index [''frameworks'']]"

text \<open>
  Calls made one after the other until one raises. \<open>sink_ok k\<close> tells whether the
  \<open>k\<close>-th call on the store (counted from 0 over the whole run) succeeds; the log holds
  every call made, the failed one last.
\<close>

fun perform :: "(nat \<Rightarrow> bool) \<Rightarrow> sink_call list \<Rightarrow> sink_call list \<Rightarrow> bool \<times> sink_call list" where
  "perform sink_ok log [] = (True, log)"
| "perform sink_ok log (c # cs) =
     (if sink_ok (length log) then perform sink_ok (log @ [c]) cs
      else (False, log @ [c]))"

text \<open>\<^verbatim>\<open>range(start, stop, step)\<close> for a positive step.\<close>

function range_step :: "nat \<Rightarrow> nat \<Rightarrow> nat \<Rightarrow> nat list" where
  "range_step start stop step =
     (if step = 0 \<or> stop \<le> start then []
      else start # range_step (start + step) stop step)"
  by pat_completeness auto
termination
  by (relation "measure (\<lambda>(start, stop, step). stop - start)") auto

declare range_step.simps [simp del]

text \<open>
  The \<^verbatim>\<open>insert_many\<close> calls of the two nested loops over \<^verbatim>\<open>results\<close>, in the order
  the loops make them: \<^verbatim>\<open>repo_contents[i:i + batch_size]\<close> for \<open>i\<close> in
  \<^verbatim>\<open>range(0, len(repo_contents), batch_size)\<close>.
\<close>

definition repo_batches :: "doc list \<Rightarrow> doc list list" where
  "repo_batches repo_contents =
     (if repo_contents \<noteq> [] then
        filter (\<lambda>batch. batch \<noteq> [])
          (map (\<lambda>i. take batch_size (drop i repo_contents))
               (range_step 0 (length repo_contents) batch_size))
      else [])"

definition insert_calls :: "doc list list \<Rightarrow> sink_call list" where
  "insert_calls results = map Insert_many (concat (map repo_batches results))"

text \<open>
  The catalog is a dict from a language to its repositories; \<^verbatim>\<open>all_repos\<close> is
  their concatenation in the order of the keys.
\<close>

definition all_repos :: "(string \<times> repo list) list \<Rightarrow> repo list" where
  "all_repos catalog = concat (map snd catalog)"

text \<open>
  One \<^verbatim>\<open>process_repo\<close> coroutine per repository; \<open>scripts i\<close> holds the responses
  the remote gives to the calls of the \<open>i\<close>-th one. Every file fetch starts at the same
  depth of calls, so with the same room for nested retries.
\<close>

definition walks ::
  "(string \<Rightarrow> string option) \<Rightarrow> nat \<Rightarrow> (string \<times> repo list) list
   \<Rightarrow> (nat \<Rightarrow> response list) \<Rightarrow> doc list run list"
where
  "walks b64 room catalog scripts =
     map (\<lambda>(i, repo). process_repo b64 room repo (scripts i)) (enumerate 0 (all_repos catalog))"

text \<open>
  \<^verbatim>\<open>await asyncio.gather(*tasks)\<close>: the results of all tasks in the order of the tasks,
  once every task has returned; an exception of a task is raised in the caller.
\<close>

definition gather :: "'a run list \<Rightarrow> 'a list outcome" where
  "gather runs =
     (if list_ex (\<lambda>r. fst r = Raised) runs then Raised
      else if list_ex (\<lambda>r. fst r = Pending) runs then Pending
      else Returned (concat (map (\<lambda>r. case fst r of Returned x \<Rightarrow> [x] | _ \<Rightarrow> []) runs)))"

text \<open>
  \<^verbatim>\<open>main\<close>, with the catalog as a parameter. When \<^verbatim>\<open>MongoClient(...)\<close> raises,
  \<^verbatim>\<open>client\<close> is unbound in the \<^verbatim>\<open>finally\<close> clause and no connection is closed.
  \<^verbatim>\<open>client.close()\<close> is taken not to raise.
\<close>

definition main ::
  "(string \<Rightarrow> string option) \<Rightarrow> nat \<Rightarrow> (string \<times> repo list) list
   \<Rightarrow> (nat \<Rightarrow> response list) \<Rightarrow> (nat \<Rightarrow> bool) \<Rightarrow> unit outcome \<times> sink_call list"
where
  "main b64 room catalog scripts sink_ok =
     (if \<not> sink_ok 0 then (Raised, [Connect])
      else
        (case perform sink_ok [Connect] index_calls of
           (False, log) \<Rightarrow> (Raised, log @ [Close])
         | (True, log) \<Rightarrow>
             (case gather (walks b64 room catalog scripts) of
                Pending \<Rightarrow> (Pending, log)
              | Raised \<Rightarrow> (Raised, log @ [Close])
              | Returned results \<Rightarrow>
                  (case perform sink_ok log (insert_calls results) of
                     (False, log') \<Rightarrow> (Raised, log' @ [Close])
                   | (True, log') \<Rightarrow> (Returned (), log' @ [Close])))))"

text \<open>
  \<^verbatim>\<open>asyncio.run(main())\<close> at the top level: the exit status of the process, \<open>None\<close>
  while it has not exited.
\<close>

definition exit_status :: "unit outcome \<Rightarrow> int option" where
  "exit_status out = (case out of Returned u \<Rightarrow> Some 0 | Raised \<Rightarrow> Some 1 | Pending \<Rightarrow> None)"

text \<open>The catalog of the source.\<close>

definition VERIFIED_REPOS :: "(string \<times> repo list) list" where
  "VERIFIED_REPOS =
     [
      (''python'',
        [
         \<lparr> url = ''https://github.com/tiangolo/fastapi'',
           name = ''fastapi'',
           description = ''FastAPI framework, high performance, web APIs'',
           language = ''python'',
           stars = 65000,
           topics = [''api'', ''async'', ''python3'', ''web-framework''],
           frameworks = [''FastAPI'', ''Pydantic''] \<rparr>,
         \<lparr> url = ''https://github.com/langchain-ai/langchain'',
           name = ''langchain'',
           description = ''Building LLM applications'',
           language = ''python'',
           stars = 75000,
           topics = [''ai'', ''llm'', ''machine-learning'', ''nlp''],
           frameworks = [''LangChain''] \<rparr>,
         \<lparr> url = ''https://github.com/pytorch/pytorch'',
           name = ''pytorch'',
           description = ''Deep learning framework'',
           language = ''python'',
           stars = 73000,
           topics = [''deep-learning'', ''machine-learning'', ''ai'', ''neural-networks''],
           frameworks = [''PyTorch''] \<rparr>,
         \<lparr> url = ''https://github.com/huggingface/transformers'',
           name = ''transformers'',
           description = ''State-of-the-art Machine Learning'',
           language = ''python'',
           stars = 115000,
           topics = [''nlp'', ''machine-learning'', ''transformers'', ''ai''],
           frameworks = [''PyTorch'', ''TensorFlow''] \<rparr>,
         \<lparr> url = ''https://github.com/scrapy/scrapy'',
           name = ''scrapy'',
           description = ''Web scraping framework'',
           language = ''python'',
           stars = 49000,
           topics = [''web-scraping'', ''crawler'', ''spider'', ''automation''],
           frameworks = [''Scrapy''] \<rparr>,
         \<lparr> url = ''https://github.com/streamlit/streamlit'',
           name = ''streamlit'',
           description = ''Web apps for Machine Learning'',
           language = ''python'',
           stars = 28000,
           topics = [''web-apps'', ''data-science'', ''ml-apps'', ''dashboard''],
           frameworks = [''Streamlit''] \<rparr>,
         \<lparr> url = ''https://github.com/django/django'',
           name = ''django'',
           description = ''Web framework for perfectionists'',
           language = ''python'',
           stars = 73000,
           topics = [''web-framework'', ''python3'', ''orm'', ''mvc''],
           frameworks = [''Django''] \<rparr>,
         \<lparr> url = ''https://github.com/numpy/numpy'',
           name = ''numpy'',
           description = ''Scientific computing in Python'',
           language = ''python'',
           stars = 24000,
           topics = [''scientific-computing'', ''arrays'', ''mathematics'', ''data-science''],
           frameworks = [''NumPy''] \<rparr>
        ]),
      (''typescript'',
        [
         \<lparr> url = ''https://github.com/microsoft/TypeScript'',
           name = ''TypeScript'',
           description = ''JavaScript with syntax for types'',
           language = ''typescript'',
           stars = 94000,
           topics = [''typescript'', ''javascript'', ''compiler'', ''language''],
           frameworks = [''TypeScript''] \<rparr>,
         \<lparr> url = ''https://github.com/nestjs/nest'',
           name = ''nest'',
           description = ''Progressive Node.js framework'',
           language = ''typescript'',
           stars = 60000,
           topics = [''nodejs'', ''typescript'', ''server'', ''framework''],
           frameworks = [''NestJS'', ''Express''] \<rparr>,
         \<lparr> url = ''https://github.com/prisma/prisma'',
           name = ''prisma'',
           description = ''Next-generation ORM for Node.js & TypeScript'',
           language = ''typescript'',
           stars = 34000,
           topics = [''orm'', ''database'', ''typescript'', ''nodejs''],
           frameworks = [''Prisma''] \<rparr>,
         \<lparr> url = ''https://github.com/trpc/trpc'',
           name = ''trpc'',
           description = ''End-to-end typesafe APIs'',
           language = ''typescript'',
           stars = 30000,
           topics = [''api'', ''typescript'', ''rpc'', ''full-stack''],
           frameworks = [''tRPC''] \<rparr>,
         \<lparr> url = ''https://github.com/supabase/supabase'',
           name = ''supabase'',
           description = ''Open source Firebase alternative'',
           language = ''typescript'',
           stars = 58000,
           topics = [''database'', ''authentication'', ''realtime'', ''backend''],
           frameworks = [''Supabase'', ''PostgreSQL''] \<rparr>,
         \<lparr> url = ''https://github.com/angular/angular'',
           name = ''angular'',
           description = ''Modern web development platform'',
           language = ''typescript'',
           stars = 89000,
           topics = [''web'', ''framework'', ''angular'', ''spa''],
           frameworks = [''Angular''] \<rparr>,
         \<lparr> url = ''https://github.com/remix-run/remix'',
           name = ''remix'',
           description = ''Full stack web framework'',
           language = ''typescript'',
           stars = 24000,
           topics = [''web'', ''framework'', ''react'', ''full-stack''],
           frameworks = [''Remix'', ''React''] \<rparr>,
         \<lparr> url = ''https://github.com/jestjs/jest'',
           name = ''jest'',
           description = ''JavaScript Testing Framework'',
           language = ''typescript'',
           stars = 42000,
           topics = [''testing'', ''jest'', ''javascript'', ''typescript''],
           frameworks = [''Jest''] \<rparr>
        ])
     ]"

section \<open>The tasks under the semaphore\<close>

abbreviation outcome_of :: "'a run \<Rightarrow> 'a outcome" where
  "outcome_of r \<equiv> fst r"

abbreviation events_of :: "'a run \<Rightarrow> event list" where
  "events_of r \<equiv> fst (snd r)"

text \<open>
  \<^verbatim>\<open>asyncio.gather\<close> runs the coroutines as tasks of one event loop, which share
  \<^verbatim>\<open>Semaphore(MAX_CONCURRENT_REQUESTS)\<close>. A task is the pair of the events it has
  performed and the events it has still to perform; a configuration is the value of the
  semaphore with the tasks. The loop lets one task perform its next event: \<^verbatim>\<open>acquire\<close>
  needs a positive value and decrements it, \<^verbatim>\<open>release\<close> increments it, every other
  event is always possible. \<open>fire i c\<close> is \<open>None\<close> where task \<open>i\<close> cannot move.
  The events of a task are those of its walk on the responses it has received so far, so
  a walk that never ends is present at each instant through a finite list of responses.
\<close>

type_synonym task = "event list \<times> event list"

type_synonym config = "nat \<times> task list"

definition fire :: "nat \<Rightarrow> config \<Rightarrow> config option" where
  "fire i c =
     (case c of (v, ts) \<Rightarrow>
        if i < length ts then
          (case ts ! i of
             (performed, []) \<Rightarrow> None
           | (performed, e # es) \<Rightarrow>
               (case e of
                  Acquire \<Rightarrow>
                    if 0 < v then Some (v - 1, ts[i := (performed @ [e], es)]) else None
                | Release \<Rightarrow> Some (v + 1, ts[i := (performed @ [e], es)])
                | _ \<Rightarrow> Some (v, ts[i := (performed @ [e], es)])))
        else None)"

text \<open>A run of the event loop: the tasks that move, in order.\<close>

fun run_schedule :: "nat list \<Rightarrow> config \<Rightarrow> config option" where
  "run_schedule [] c = Some c"
| "run_schedule (i # sched) c =
     (case fire i c of None \<Rightarrow> None | Some c' \<Rightarrow> run_schedule sched c')"

definition start_config ::
  "(string \<Rightarrow> string option) \<Rightarrow> nat \<Rightarrow> (string \<times> repo list) list
   \<Rightarrow> (nat \<Rightarrow> response list) \<Rightarrow> config"
where
  "start_config b64 room catalog scripts =
     (MAX_CONCURRENT_REQUESTS, map (\<lambda>r. ([], events_of r)) (walks b64 room catalog scripts))"

text \<open>
  The remote calls of a task that are in flight: the requests it has sent less the
  answers it has received. The permits it holds: its acquires less its releases.
\<close>

definition is_get :: "event \<Rightarrow> bool" where
  "is_get e = (case e of Get u \<Rightarrow> True | _ \<Rightarrow> False)"

definition is_recv :: "event \<Rightarrow> bool" where
  "is_recv e = (case e of Recv r \<Rightarrow> True | _ \<Rightarrow> False)"

definition calls_in_flight :: "event list \<Rightarrow> int" where
  "calls_in_flight es = int (length (filter is_get es)) - int (length (filter is_recv es))"

definition permits_held :: "event list \<Rightarrow> int" where
  "permits_held es = int (count_list es Acquire) - int (count_list es Release)"

definition total_in_flight :: "config \<Rightarrow> int" where
  "total_in_flight c = sum_list (map (\<lambda>t. calls_in_flight (fst t)) (snd c))"

definition walks_in_progress :: "config \<Rightarrow> nat" where
  "walks_in_progress c = length (filter (\<lambda>t. 0 < permits_held (fst t)) (snd c))"

text \<open>
  A walk under one permit, one call at a time: the semaphore is taken once, at the start;
  while it is held each request is answered before anything else happens; it is given
  back once, and nothing follows. \<open>walk_phase ph es\<close> is the phase after \<open>es\<close>, or
  \<open>None\<close> where \<open>es\<close> leaves this pattern.
\<close>

datatype phase = Outside | Holding | Waiting | Left

fun advance :: "phase \<Rightarrow> event \<Rightarrow> phase option" where
  "advance Outside Acquire = Some Holding"
| "advance Holding (Get u) = Some Waiting"
| "advance Waiting (Recv r) = Some Holding"
| "advance Holding (Sleep n) = Some Holding"
| "advance Holding Release = Some Left"
| "advance _ _ = None"

fun walk_phase :: "phase \<Rightarrow> event list \<Rightarrow> phase option" where
  "walk_phase ph [] = Some ph"
| "walk_phase ph (e # es) =
     (case advance ph e of None \<Rightarrow> None | Some ph' \<Rightarrow> walk_phase ph' es)"

text \<open>The permits held and the calls in flight in each phase.\<close>

fun phase_permits :: "phase \<Rightarrow> int" where
  "phase_permits Outside = 0"
| "phase_permits Holding = 1"
| "phase_permits Waiting = 1"
| "phase_permits Left = 0"

fun phase_calls :: "phase \<Rightarrow> int" where
  "phase_calls Waiting = 1"
| "phase_calls _ = 0"

section \<open>Notions of the specification\<close>

text \<open>
  A permit for each remote call, as the specification describes the walker and the
  fetcher: every request is sent while the semaphore is held, and the requests sent
  during one holding are one and the same request (a call and its retries). The state is
  \<open>None\<close> while the semaphore is not held, \<open>Some None\<close> while it is held and nothing
  was sent, \<open>Some (Some u)\<close> after a request for \<open>u\<close>.
\<close>

fun permit_per_call :: "string option option \<Rightarrow> event list \<Rightarrow> bool" where
  "permit_per_call st [] = True"
| "permit_per_call st (Acquire # es) = (st = None \<and> permit_per_call (Some None) es)"
| "permit_per_call st (Release # es) = (st \<noteq> None \<and> permit_per_call None es)"
| "permit_per_call st (Get u # es) =
     (case st of
        None \<Rightarrow> False
      | Some None \<Rightarrow> permit_per_call (Some (Some u)) es
      | Some (Some v) \<Rightarrow> u = v \<and> permit_per_call st es)"
| "permit_per_call st (Recv r # es) = permit_per_call st es"
| "permit_per_call st (Sleep n # es) = permit_per_call st es"

text \<open>The final dot-separated suffix of a name: what follows its last dot.\<close>

definition final_suffix :: "string \<Rightarrow> string" where
  "final_suffix n = rev (takeWhile (\<lambda>c. c \<noteq> CHR ''.'') (rev n))"

text \<open>The cooldown time in a list of events: the sum of its sleeps.\<close>

definition time_slept :: "event list \<Rightarrow> nat" where
  "time_slept es = sum_list (map (\<lambda>e. case e of Sleep n \<Rightarrow> n | _ \<Rightarrow> 0) es)"

text \<open>
  A response that ends a file fetch with empty content: a transport exception, a status
  other than 200 and 403 (404 among them), or a 200 whose body does not decode (not
  JSON, or a content field that is no base64 of UTF-8 text).
\<close>

definition fetch_fails :: "(string \<Rightarrow> string option) \<Rightarrow> response \<Rightarrow> bool" where
  "fetch_fails b64 r =
     (case r of
        Transport_error \<Rightarrow> True
      | Response st bd \<Rightarrow>
          if st = 200 then
            (case bd of
               None \<Rightarrow> True
             | Some data \<Rightarrow>
                 (case subscript data ''content'' of
                    Some (JStr s) \<Rightarrow> b64 s = None
                  | Some _ \<Rightarrow> True
                  | None \<Rightarrow> False))
          else st \<noteq> 403)"

text \<open>A response that the fetcher takes for a rate limit: status 403.\<close>

definition rate_limited :: "response \<Rightarrow> bool" where
  "rate_limited r = (case r of Transport_error \<Rightarrow> False | Response st bd \<Rightarrow> st = 403)"

text \<open>
  A listing call that fails: an exception, a status other than 200, or a body that is
  not JSON.
\<close>

definition listing_fails :: "response \<Rightarrow> bool" where
  "listing_fails r =
     (case r of Transport_error \<Rightarrow> True | Response st bd \<Rightarrow> st \<noteq> 200 \<or> bd = None)"

text \<open>
  The store after a run all of whose calls succeeded: a collection is the list of its
  documents; the indexes of \<open>index_calls\<close> are not unique and the documents carry no
  key of their own, so \<^verbatim>\<open>insert_many\<close> adds every document of its batch.
\<close>

fun apply_call :: "doc list \<Rightarrow> sink_call \<Rightarrow> doc list" where
  "apply_call store (Insert_many batch) = store @ batch"
| "apply_call store _ = store"

definition store_after :: "doc list \<Rightarrow> sink_call list \<Rightarrow> doc list" where
  "store_after store log = foldl apply_call store log"

section \<open>Sample inputs\<close>

definition fastapi :: repo where
  "fastapi = hd (all_repos VERIFIED_REPOS)"

definition langchain :: repo where
  "langchain = all_repos VERIFIED_REPOS ! 1"

text \<open>
  An entry of a listing and the object of a file, as the remote API sends them.
\<close>

definition listing_entry :: "string \<Rightarrow> string \<Rightarrow> json" where
  "listing_entry kind n = JObj [(''name'', JStr n), (''path'', JStr n), (''type'', JStr kind)]"

definition file_object :: "string \<Rightarrow> json" where
  "file_object s = JObj [(''content'', JStr s), (''encoding'', JStr ''base64'')]"

text \<open>
  A room for nested retries: of the 1000 frames of the interpreter's default recursion
  limit, those of the event loop and of the walk leave about this many.
\<close>

definition default_room :: nat where
  "default_room = 978"

text \<open>A decoder that knows one string: \<^verbatim>\<open>cGFzcw==\<close> is the base64 of \<^verbatim>\<open>pass\<close>.\<close>

definition b64_pass :: "string \<Rightarrow> string option" where
  "b64_pass s = (if s = ''cGFzcw=='' then Some ''pass'' else None)"

text \<open>Answers for two walks: the first listing fails, the second lists one code file.\<close>

definition two_scripts :: "nat \<Rightarrow> response list" where
  "two_scripts i =
     (if i = 0 then [Response 500 None]
      else [Response 200 (Some (JArr [listing_entry ''dir'' ''docs'',
                                      listing_entry ''file'' ''main.py''])),
            Response 200 (Some (file_object ''cGFzcw==''))])"

text \<open>
  A repository with 250 code files at its top level, \<^verbatim>\<open>m.py\<close>, \<^verbatim>\<open>mm.py\<close> and so
  on, and the answers to its walk: the listing, then the content of each file.
\<close>

definition many_names :: "string list" where
  "many_names = map (\<lambda>i. replicate (Suc i) (CHR ''m'') @ ''.py'') [0..<250]"

definition many_files :: "nat \<Rightarrow> response list" where
  "many_files i =
     Response 200 (Some (JArr (map (listing_entry ''file'') many_names)))
       # replicate 250 (Response 200 (Some (file_object ''cGFzcw=='')))"

section \<open>Properties of the batching\<close>

lemma ceil_step:
  fixes start stop step :: nat
  assumes "0 < step" "start < stop"
  shows "(stop - start + step - 1) div step = Suc ((stop - (start + step) + step - 1) div step)"
proof (cases "start + step \<le> stop")
  case True
  define a where "a = stop - (start + step) + step - 1"
  have "stop - start + step - 1 = a + step"
    unfolding a_def using True assms by linarith
  moreover have "(a + step) div step = a div step + 1"
    using assms(1) by (intro div_add_self2) simp
  ultimately show ?thesis unfolding a_def by presburger
next
  case False
  define m where "m = stop - start + step - 1"
  have "step \<le> m" "m < step + step"
    unfolding m_def using assms False by linarith+
  then have "step * 1 \<le> m" "m < step * Suc 1"
    by simp_all
  then have "m div step = 1"
    by (rule div_nat_eqI)
  moreover have "(stop - (start + step) + step - 1) div step = 0"
    using False assms by simp
  ultimately show ?thesis unfolding m_def by presburger
qed

lemma range_step_unfold:
  "0 < step \<Longrightarrow> start < stop \<Longrightarrow>
   range_step start stop step = start # range_step (start + step) stop step"
  by (subst range_step.simps) simp

lemma range_step_empty: "stop \<le> start \<Longrightarrow> range_step start stop step = []"
  by (subst range_step.simps) simp

lemma length_range_step:
  "0 < step \<Longrightarrow> length (range_step start stop step) = (stop - start + step - 1) div step"
proof (induction start stop step rule: range_step.induct)
  case (1 start stop step)
  show ?case
  proof (cases "stop \<le> start")
    case True
    with "1.prems" show ?thesis by (simp add: range_step_empty)
  next
    case False
    have "length (range_step (start + step) stop step)
        = (stop - (start + step) + step - 1) div step"
      using "1.IH" False "1.prems" by simp
    then show ?thesis
      using False "1.prems" ceil_step[of step start stop] by (simp add: range_step_unfold)
  qed
qed

lemma range_step_below: "i \<in> set (range_step start stop step) \<Longrightarrow> i < stop"
proof (induction start stop step rule: range_step.induct)
  case (1 start stop step)
  from "1.prems" have "\<not> (step = 0 \<or> stop \<le> start)"
    and "i = start \<or> i \<in> set (range_step (start + step) stop step)"
    by (subst (asm) range_step.simps, simp split: if_splits)+
  then show ?case using "1.IH" by auto
qed

lemma concat_slices:
  "0 < step \<Longrightarrow>
   concat (map (\<lambda>i. take step (drop i xs)) (range_step start (length xs) step)) = drop start xs"
proof (induction start "length xs" step rule: range_step.induct)
  case (1 start step)
  show ?case
  proof (cases "length xs \<le> start")
    case True
    then show ?thesis by (simp add: range_step_empty)
  next
    case False
    have "concat (map (\<lambda>i. take step (drop i xs)) (range_step (start + step) (length xs) step))
            = drop (start + step) xs"
      using "1.hyps" False "1.prems" by simp
    moreover have "take step (drop start xs) @ drop (start + step) xs = drop start xs"
      by (metis append_take_drop_id drop_drop add.commute)
    ultimately show ?thesis using False "1.prems" by (simp add: range_step_unfold)
  qed
qed

lemma slices_nonempty:
  "0 < step \<Longrightarrow>
   filter (\<lambda>batch. batch \<noteq> []) (map (\<lambda>i. take step (drop i xs)) (range_step start (length xs) step))
     = map (\<lambda>i. take step (drop i xs)) (range_step start (length xs) step)"
  by (rule filter_True) (auto dest: range_step_below)

lemma repo_batches_eq:
  "repo_batches xs = map (\<lambda>i. take batch_size (drop i xs)) (range_step 0 (length xs) batch_size)"
proof (cases "xs = []")
  case True
  then show ?thesis by (simp add: repo_batches_def range_step_empty)
next
  case False
  then show ?thesis by (simp add: repo_batches_def slices_nonempty batch_size_def)
qed

lemma perform_all_ok: "\<forall>k. sink_ok k \<Longrightarrow> perform sink_ok log cs = (True, log @ cs)"
  by (induction cs arbitrary: log) simp_all

lemma main_all_ok:
  assumes "gather (walks b64 room catalog scripts) = Returned results" and "\<forall>k. sink_ok k"
  shows "main b64 room catalog scripts sink_ok
           = (Returned (), Connect # index_calls @ insert_calls results @ [Close])"
  using assms by (simp add: main_def perform_all_ok)

text \<open>
  C5. When every walk has returned and the store accepts every call, \<^verbatim>\<open>main\<close> makes,
  between the index creation and the close, exactly the \<^verbatim>\<open>insert_many\<close> calls of the
  batches of each repository's records, repository after repository. The batches of a
  collection of \<open>n\<close> records are \<open>\<lceil>n / 100\<rceil>\<close> in number, none is empty or longer than 100,
  and put end to end they give the collection back in its order; 250 records give three
  batches of 100, 100 and 50.
\<close>

theorem batch_insert_calls:
  assumes "gather (walks b64 room catalog scripts) = Returned results" and "\<forall>k. sink_ok k"
  shows "snd (main b64 room catalog scripts sink_ok)
           = Connect # index_calls @ map Insert_many (concat (map repo_batches results)) @ [Close]
         \<and> length (repo_batches repo_contents) = (length repo_contents + 99) div 100
         \<and> list_all (\<lambda>batch. batch \<noteq> [] \<and> length batch \<le> 100) (repo_batches repo_contents)
         \<and> concat (repo_batches repo_contents) = repo_contents
         \<and> (length repo_contents = 250 \<longrightarrow>
              map length (repo_batches repo_contents) = [100, 100, 50])"
proof -
  have calls: "snd (main b64 room catalog scripts sink_ok)
      = Connect # index_calls @ map Insert_many (concat (map repo_batches results)) @ [Close]"
    using main_all_ok[OF assms] by (simp add: insert_calls_def)
  have count: "length (repo_batches repo_contents) = (length repo_contents + 99) div 100"
    by (simp add: repo_batches_eq length_range_step batch_size_def)
  have sizes: "list_all (\<lambda>batch. batch \<noteq> [] \<and> length batch \<le> 100) (repo_batches repo_contents)"
    by (auto simp: repo_batches_eq list_all_iff batch_size_def dest: range_step_below)
  have order: "concat (repo_batches repo_contents) = repo_contents"
    by (simp add: repo_batches_eq concat_slices batch_size_def)
  have example: "map length (repo_batches repo_contents) = [100, 100, 50]"
    if "length repo_contents = 250"
    using that by (simp add: repo_batches_eq batch_size_def range_step_unfold range_step_empty)
  from calls count sizes order example show ?thesis by blast
qed

section \<open>Properties of the fetcher and the walker\<close>

lemma except_return_simps [simp]:
  "except_return d (Returned x, es, rs) = (Returned x, es, rs)"
  "except_return d (Raised, es, rs) = (Returned d, es, rs)"
  "except_return d (Pending, es, rs) = (Pending, es, rs)"
  by (simp_all add: except_return_def)

lemma except_return_not_raised: "outcome_of (except_return d r) \<noteq> Raised"
  by (cases r) (auto simp: except_return_def split: outcome.splits)

lemma except_return_events: "events_of (except_return d r) = events_of r"
  by (cases r) (auto simp: except_return_def split: outcome.splits)

lemma except_return_id: "outcome_of r \<noteq> Raised \<Longrightarrow> except_return d r = r"
  by (cases r) (auto simp: except_return_def split: outcome.splits)

lemma get_file_content_never_raises:
  "outcome_of (get_file_content b64 room u path rs) \<noteq> Raised"
  by (subst get_file_content.simps) (rule except_return_not_raised)

lemma get_file_content_pending:
  "get_file_content b64 room u (JStr p) []
     = (Pending, [Get (api_base u @ ''/contents/'' @ p)], [])"
  by (subst get_file_content.simps) simp

lemma get_file_content_403_Suc:
  "get_file_content b64 (Suc k) u (JStr p) (Response 403 bd # rs)
     = (case get_file_content b64 k u (JStr p) rs of
          (out, es, rs') \<Rightarrow>
            (out, [Get (api_base u @ ''/contents/'' @ p), Recv (Response 403 bd), Sleep 60] @ es,
             rs'))"
proof -
  obtain out es rs' where r: "get_file_content b64 k u (JStr p) rs = (out, es, rs')"
    by (cases "get_file_content b64 k u (JStr p) rs") auto
  then have "out \<noteq> Raised"
    using get_file_content_never_raises[of b64 k u "JStr p" rs] by simp
  then show ?thesis
    by (subst get_file_content.simps) (simp add: r except_return_id)
qed

lemma get_file_content_403:
  "room \<noteq> 0 \<Longrightarrow>
   get_file_content b64 room u (JStr p) (Response 403 bd # rs)
     = (case get_file_content b64 (room - 1) u (JStr p) rs of
          (out, es, rs') \<Rightarrow>
            (out, [Get (api_base u @ ''/contents/'' @ p), Recv (Response 403 bd), Sleep 60] @ es,
             rs'))"
  using get_file_content_403_Suc[of b64 "room - 1" u p bd rs] by simp

lemma get_file_content_403_no_room:
  "get_file_content b64 0 u (JStr p) (Response 403 bd # rs)
     = (Returned '''',
        [Get (api_base u @ ''/contents/'' @ p), Recv (Response 403 bd), Sleep 60], rs)"
  by (subst get_file_content.simps) simp

lemma get_file_content_fails:
  "fetch_fails b64 r \<Longrightarrow>
   get_file_content b64 room u (JStr p) (r # rs)
     = (Returned '''', [Get (api_base u @ ''/contents/'' @ p), Recv r], rs)"
  by (subst get_file_content.simps)
     (auto simp: Let_def fetch_fails_def subscript_def split: response.splits option.splits json.splits if_splits)

lemma get_file_content_ok:
  "subscript data ''content'' = Some (JStr s) \<Longrightarrow> b64 s = Some c \<Longrightarrow>
   get_file_content b64 room u (JStr p) (Response 200 (Some data) # rs)
     = (Returned c,
        [Get (api_base u @ ''/contents/'' @ p), Recv (Response 200 (Some data))], rs)"
  by (subst get_file_content.simps)
     (auto simp: Let_def subscript_def split: json.splits)

lemma get_file_content_not_str:
  "(\<forall>p. path \<noteq> JStr p) \<Longrightarrow> get_file_content b64 room u path rs = (Returned '''', [], rs)"
  by (subst get_file_content.simps) (auto split: json.splits)


lemma is_code_file_True:
  "is_code_file item = Some True \<Longrightarrow>
   \<exists>n. subscript item ''type'' = Some (JStr ''file'') \<and> subscript item ''name'' = Some (JStr n)
       \<and> endswith_any n code_extensions"
  by (auto simp: is_code_file_def split: option.splits if_splits json.splits)

lemma process_items_fetch:
  assumes "is_code_file item = Some True"
    and "subscript item ''name'' = Some (JStr n)"
    and "subscript item ''path'' = Some path"
    and "get_file_content b64 room (url repo) path rs = (Returned text, es, rs')"
  shows "process_items b64 room repo (item # items) acc rs
           = (case process_items b64 room repo items
                     (if text \<noteq> [] then acc @ [make_doc repo n path text] else acc) rs' of
                (out, es', rs'') \<Rightarrow> (out, es @ es', rs''))"
  using assms by simp

lemma process_items_docs:
  "process_items b64 room repo items acc rs = (Returned docs, es, rs') \<Longrightarrow> d \<in> set docs \<Longrightarrow>
   d \<in> set acc \<or>
   (\<exists>item n path text. item \<in> set items \<and> is_code_file item = Some True
      \<and> subscript item ''name'' = Some (JStr n) \<and> subscript item ''path'' = Some path
      \<and> text \<noteq> [] \<and> d = make_doc repo n path text)"
proof (induction items arbitrary: acc rs docs es rs')
  case Nil
  then show ?case by simp
next
  case (Cons item items)
  show ?case
  proof (cases "is_code_file item")
    case None
    with Cons.prems show ?thesis by simp
  next
    case (Some b)
    show ?thesis
    proof (cases b)
      case False
      with Some Cons.prems have "process_items b64 room repo items acc rs = (Returned docs, es, rs')"
        by simp
      from Cons.IH[OF this Cons.prems(2)] show ?thesis by auto
    next
      case True
      with Some have t: "is_code_file item = Some True" by simp
      then obtain n where n: "subscript item ''name'' = Some (JStr n)"
        using is_code_file_True by blast
      show ?thesis
      proof (cases "subscript item ''path''")
        case None
        with t n Cons.prems show ?thesis by simp
      next
        case (Some path)
        obtain out1 es1 rs1 where g: "get_file_content b64 room (url repo) path rs = (out1, es1, rs1)"
          by (cases "get_file_content b64 room (url repo) path rs") auto
        show ?thesis
        proof (cases out1)
          case (Returned cont)
          let ?acc = "if cont \<noteq> [] then acc @ [make_doc repo n path cont] else acc"
          obtain out2 es2 rs2 where p: "process_items b64 room repo items ?acc rs1 = (out2, es2, rs2)"
            by (cases "process_items b64 room repo items ?acc rs1") auto
          have "process_items b64 room repo (item # items) acc rs = (out2, es1 @ es2, rs2)"
            using t n Some g Returned p by simp
          with Cons.prems have "process_items b64 room repo items ?acc rs1 = (Returned docs, es2, rs2)"
            using p by simp
          from Cons.IH[OF this Cons.prems(2)] show ?thesis
            using t n Some by (auto split: if_splits)
        next
          case Raised
          with t n Some g Cons.prems show ?thesis by simp
        next
          case Pending
          with t n Some g Cons.prems show ?thesis by simp
        qed
      qed
    qed
  qed
qed

lemma get_file_content_retries:
  "list_all rate_limited pre \<Longrightarrow> length pre \<le> room \<Longrightarrow>
   get_file_content b64 room u (JStr p) (pre @ rs)
     = (case get_file_content b64 (room - length pre) u (JStr p) rs of
          (out, es, rs') \<Rightarrow>
            (out,
             concat (map (\<lambda>r. [Get (api_base u @ ''/contents/'' @ p), Recv r, Sleep 60]) pre) @ es,
             rs'))"
proof (induction pre arbitrary: room)
  case Nil
  then show ?case by simp
next
  case (Cons r pre)
  then obtain bd where r: "r = Response 403 bd"
    by (auto simp: rate_limited_def split: response.splits)
  from Cons.prems have room: "room \<noteq> 0" and shorter: "length pre \<le> room - 1"
    and limited: "list_all rate_limited pre"
    by auto
  have less: "room - 1 - length pre = room - length (r # pre)"
    by simp
  from Cons.IH[OF limited shorter] show ?case
    unfolding less by (simp add: r get_file_content_403[OF room] split: prod.splits)
qed

lemma get_file_content_gives_up:
  assumes "list_all rate_limited pre" and "length pre = Suc room"
  shows "get_file_content b64 room u (JStr p) (pre @ rs)
           = (Returned '''',
              concat (map (\<lambda>r. [Get (api_base u @ ''/contents/'' @ p), Recv r, Sleep 60]) pre),
              rs)"
proof -
  from assms(2) obtain pre' r where pre: "pre = pre' @ [r]"
    by (cases pre rule: rev_cases) auto
  with assms have limited: "list_all rate_limited pre'" and last: "rate_limited r"
    and len: "length pre' = room"
    by auto
  from last obtain bd where r: "r = Response 403 bd"
    by (auto simp: rate_limited_def split: response.splits)
  have "get_file_content b64 room u (JStr p) (pre' @ r # rs)
      = (Returned '''',
         concat (map (\<lambda>r. [Get (api_base u @ ''/contents/'' @ p), Recv r, Sleep 60]) pre')
           @ [Get (api_base u @ ''/contents/'' @ p), Recv r, Sleep 60],
         rs)"
    using get_file_content_retries[OF limited, of room b64 u p "r # rs"] len
    by (simp add: r get_file_content_403_no_room)
  then show ?thesis by (simp add: pre)
qed

lemma time_slept_retries:
  "time_slept (concat (map (\<lambda>r. [Get x, Recv r, Sleep 60]) pre) @ [Get x, Recv r']) = 60 * length pre"
  by (induction pre) (simp_all add: time_slept_def)

lemma gets_retries:
  "length (filter is_get (concat (map (\<lambda>r. [Get x, Recv r, Sleep 60]) pre) @ [Get x])) = length pre + 1"
  by (induction pre) (simp_all add: is_get_def)

lemma gets_given_up:
  "length (filter is_get (concat (map (\<lambda>r. [Get x, Recv r, Sleep 60]) pre))) = length pre"
  by (induction pre) (simp_all add: is_get_def)

text \<open>
  Within the room for nested retries the fetcher does retry: for 403s no more than the
  room and then a 200 with a content field that decodes to a non-empty text, it sleeps 60
  seconds after each 403, sends the same request again, returns the decoded text, and the
  walk adds exactly one record for the file.
\<close>

lemma retries_within_room:
  assumes "list_all rate_limited pre" and "length pre \<le> room"
    and "subscript data ''content'' = Some (JStr s)" and "b64 s = Some c" and "c \<noteq> []"
    and "is_code_file item = Some True"
    and "subscript item ''name'' = Some (JStr n)" and "subscript item ''path'' = Some (JStr p)"
  shows "get_file_content b64 room (url repo) (JStr p) (pre @ Response 200 (Some data) # rs)
           = (Returned c,
              concat (map (\<lambda>r. [Get (api_base (url repo) @ ''/contents/'' @ p), Recv r, Sleep 60]) pre)
                @ [Get (api_base (url repo) @ ''/contents/'' @ p), Recv (Response 200 (Some data))],
              rs)
         \<and> time_slept (events_of (get_file_content b64 room (url repo) (JStr p)
                                     (pre @ Response 200 (Some data) # rs)))
             = 60 * length pre
         \<and> process_items b64 room repo (item # items) processed_files
               (pre @ Response 200 (Some data) # rs)
             = (case process_items b64 room repo items
                       (processed_files @ [make_doc repo n (JStr p) c]) rs of
                  (out, es, rs') \<Rightarrow>
                    (out,
                     events_of (get_file_content b64 room (url repo) (JStr p)
                                  (pre @ Response 200 (Some data) # rs)) @ es,
                     rs'))
         \<and> outcome_of (process_repo b64 room repo
               (Response 200 (Some (JArr [item])) # pre @ Response 200 (Some data) # rs))
             = Returned [make_doc repo n (JStr p) c]"
proof -
  let ?x = "api_base (url repo) @ ''/contents/'' @ p"
  let ?ok = "Response 200 (Some data)"
  have fetch: "get_file_content b64 room (url repo) (JStr p) (pre @ ?ok # rs)
      = (Returned c, concat (map (\<lambda>r. [Get ?x, Recv r, Sleep 60]) pre) @ [Get ?x, Recv ?ok], rs)"
    using assms(1-4) by (simp add: get_file_content_retries get_file_content_ok)
  have slept: "time_slept (events_of (get_file_content b64 room (url repo) (JStr p) (pre @ ?ok # rs)))
      = 60 * length pre"
    by (simp only: fetch fst_conv snd_conv time_slept_retries)
  have walk: "process_items b64 room repo (item # items) processed_files (pre @ ?ok # rs)
      = (case process_items b64 room repo items (processed_files @ [make_doc repo n (JStr p) c]) rs of
           (out, es, rs') \<Rightarrow>
             (out, events_of (get_file_content b64 room (url repo) (JStr p) (pre @ ?ok # rs)) @ es, rs'))"
    for items processed_files
    using process_items_fetch[OF assms(6-8) fetch] assms(5) unfolding fetch by simp
  have alone: "outcome_of (process_repo b64 room repo (Response 200 (Some (JArr [item])) # pre @ ?ok # rs))
      = Returned [make_doc repo n (JStr p) c]"
    by (simp add: process_repo_def process_repo_body_def iterate_def async_with_semaphore_def
        walk[of "[]" "[]"] del: process_items.simps(2))
  from fetch slept walk alone show ?thesis by simp
qed

text \<open>
  C3. The retries are bounded by the interpreter. A file fetch answered by one 403 more
  than there is room for nested retries: after the last of them the fetcher has sent as
  many requests as there were 403s, has slept after each, and returns the empty string
  without looking at the answers that follow, a 200 with valid content among them. The
  walk adds no record for the file; the walk of a repository that lists this file alone
  returns no record.
\<close>

theorem retries_end_at_recursion_limit:
  assumes "list_all rate_limited pre" and "length pre = Suc room"
    and "is_code_file item = Some True"
    and "subscript item ''name'' = Some (JStr n)" and "subscript item ''path'' = Some (JStr p)"
  shows "get_file_content b64 room (url repo) (JStr p) (pre @ rs)
           = (Returned '''',
              concat (map (\<lambda>r. [Get (api_base (url repo) @ ''/contents/'' @ p), Recv r, Sleep 60]) pre),
              rs)
         \<and> length (filter is_get (events_of (get_file_content b64 room (url repo) (JStr p) (pre @ rs))))
             = Suc room
         \<and> process_items b64 room repo (item # items) processed_files (pre @ rs)
             = (case process_items b64 room repo items processed_files rs of
                  (out, es, rs') \<Rightarrow>
                    (out,
                     events_of (get_file_content b64 room (url repo) (JStr p) (pre @ rs)) @ es,
                     rs'))
         \<and> outcome_of (process_repo b64 room repo (Response 200 (Some (JArr [item])) # pre @ rs))
             = Returned []"
proof -
  let ?x = "api_base (url repo) @ ''/contents/'' @ p"
  have fetch: "get_file_content b64 room (url repo) (JStr p) (pre @ rs)
      = (Returned '''', concat (map (\<lambda>r. [Get ?x, Recv r, Sleep 60]) pre), rs)"
    using assms(1,2) by (rule get_file_content_gives_up)
  have gets: "length (filter is_get (events_of (get_file_content b64 room (url repo) (JStr p) (pre @ rs))))
      = Suc room"
    by (simp only: fetch fst_conv snd_conv gets_given_up assms(2))
  have walk: "process_items b64 room repo (item # items) processed_files (pre @ rs)
      = (case process_items b64 room repo items processed_files rs of
           (out, es, rs') \<Rightarrow>
             (out, events_of (get_file_content b64 room (url repo) (JStr p) (pre @ rs)) @ es, rs'))"
    for items processed_files
    using process_items_fetch[OF assms(3-5) fetch] unfolding fetch by simp
  have alone: "outcome_of (process_repo b64 room repo (Response 200 (Some (JArr [item])) # pre @ rs))
      = Returned []"
    by (simp add: process_repo_def process_repo_body_def iterate_def async_with_semaphore_def
        walk[of "[]" "[]"] del: process_items.simps(2))
  from fetch gets walk alone show ?thesis by simp
qed

lemma fastapi_url: "url fastapi = ''https://github.com/tiangolo/fastapi''"
  by (simp add: fastapi_def all_repos_def VERIFIED_REPOS_def)

lemma api_base_fastapi: "api_base (url fastapi) = ''https://api.github.com/repos/tiangolo/fastapi''"
  by (simp add: fastapi_url api_base_def)

lemma main_py_is_code_file: "is_code_file (listing_entry ''file'' ''main.py'') = Some True"
  by (simp add: is_code_file_def listing_entry_def subscript_def endswith_any_def endswith_def
      code_extensions_def)

lemma main_py_name: "subscript (listing_entry ''file'' ''main.py'') ''name'' = Some (JStr ''main.py'')"
  by (simp add: listing_entry_def subscript_def)

lemma main_py_path: "subscript (listing_entry ''file'' ''main.py'') ''path'' = Some (JStr ''main.py'')"
  by (simp add: listing_entry_def subscript_def)

lemma file_object_content: "subscript (file_object s) ''content'' = Some (JStr s)"
  by (simp add: file_object_def subscript_def)

theorem retries_end_at_recursion_limit_witness:
  "list_all rate_limited (replicate 979 (Response 403 None))
   \<and> length (replicate 979 (Response 403 None)) = Suc default_room
   \<and> is_code_file (listing_entry ''file'' ''main.py'') = Some True
   \<and> subscript (listing_entry ''file'' ''main.py'') ''name'' = Some (JStr ''main.py'')
   \<and> subscript (listing_entry ''file'' ''main.py'') ''path'' = Some (JStr ''main.py'')
   \<and> get_file_content b64_pass default_room (url fastapi) (JStr ''main.py'')
         [Response 200 (Some (file_object ''cGFzcw==''))]
       = (Returned ''pass'',
          [Get ''https://api.github.com/repos/tiangolo/fastapi/contents/main.py'',
           Recv (Response 200 (Some (file_object ''cGFzcw==''))) ],
          [])
   \<and> outcome_of (get_file_content b64_pass default_room (url fastapi) (JStr ''main.py'')
         (replicate 979 (Response 403 None) @ [Response 200 (Some (file_object ''cGFzcw==''))]))
       = Returned ''''
   \<and> length (filter is_get (events_of
         (get_file_content b64_pass default_room (url fastapi) (JStr ''main.py'')
            (replicate 979 (Response 403 None) @ [Response 200 (Some (file_object ''cGFzcw==''))]))))
       = 979
   \<and> outcome_of (process_repo b64_pass default_room fastapi
         (Response 200 (Some (JArr [listing_entry ''file'' ''main.py'']))
            # replicate 979 (Response 403 None) @ [Response 200 (Some (file_object ''cGFzcw==''))]))
       = Returned []"
proof -
  have h1: "list_all rate_limited (replicate 979 (Response 403 None))"
    by (simp add: list_all_iff rate_limited_def)
  have h2: "length (replicate 979 (Response 403 None)) = Suc default_room"
    by (simp add: default_room_def)
  have valid: "get_file_content b64_pass default_room (url fastapi) (JStr ''main.py'')
        [Response 200 (Some (file_object ''cGFzcw==''))]
      = (Returned ''pass'',
         [Get ''https://api.github.com/repos/tiangolo/fastapi/contents/main.py'',
          Recv (Response 200 (Some (file_object ''cGFzcw=='')))], [])"
    by (simp add: get_file_content_ok[where s = "''cGFzcw==''" and c = "''pass''"]
        file_object_content b64_pass_def api_base_fastapi)
  from retries_end_at_recursion_limit [where ?b64.0 = b64_pass and repo = fastapi
      and rs = "[Response 200 (Some (file_object ''cGFzcw==''))]"
      and items = "[]" and processed_files = "[]",
      OF h1 h2 main_py_is_code_file main_py_name main_py_path]
  show ?thesis
    using h1 h2 valid main_py_is_code_file main_py_name main_py_path
    by (elim conjE) (simp add: default_room_def)
qed

text \<open>
  C7. A file fetch answered by a transport exception, by a 404, by any status other than
  200, 403 and 404, or by a 200 whose body does not decode: the fetcher returns the empty
  string, it does not raise, and it sends no second request (the only events are the
  request and its answer; the responses that follow are left for the next call). The
  walk adds no record for the file and goes on with the next item; the walk of a
  repository that lists this file alone returns no record.
\<close>

theorem failed_fetch_is_empty:
  assumes "fetch_fails b64 r"
    and "is_code_file item = Some True"
    and "subscript item ''name'' = Some (JStr n)" and "subscript item ''path'' = Some (JStr p)"
  shows "get_file_content b64 room (url repo) (JStr p) (r # rs)
           = (Returned '''', [Get (api_base (url repo) @ ''/contents/'' @ p), Recv r], rs)
         \<and> process_items b64 room repo (item # items) processed_files (r # rs)
             = (case process_items b64 room repo items processed_files rs of
                  (out, es, rs') \<Rightarrow>
                    (out, [Get (api_base (url repo) @ ''/contents/'' @ p), Recv r] @ es, rs'))
         \<and> outcome_of (process_repo b64 room repo (Response 200 (Some (JArr [item])) # r # rs))
             = Returned []
         \<and> fetch_fails b64 Transport_error
         \<and> fetch_fails b64 (Response 404 bd)
         \<and> (st \<noteq> 200 \<and> st \<noteq> 403 \<and> st \<noteq> 404 \<longrightarrow> fetch_fails b64 (Response st bd))
         \<and> fetch_fails b64 (Response 200 None)"
proof -
  have fetch: "get_file_content b64 room (url repo) (JStr p) (r # rs)
      = (Returned '''', [Get (api_base (url repo) @ ''/contents/'' @ p), Recv r], rs)"
    using assms(1) by (rule get_file_content_fails)
  have walk: "process_items b64 room repo (item # items) processed_files (r # rs)
      = (case process_items b64 room repo items processed_files rs of
           (out, es, rs') \<Rightarrow>
             (out, [Get (api_base (url repo) @ ''/contents/'' @ p), Recv r] @ es, rs'))"
    for items processed_files
    using process_items_fetch[OF assms(2-4) fetch] by simp
  have alone: "outcome_of (process_repo b64 room repo (Response 200 (Some (JArr [item])) # r # rs))
      = Returned []"
    by (simp add: process_repo_def process_repo_body_def iterate_def async_with_semaphore_def
        walk[of "[]" "[]"] del: process_items.simps(2))
  have kinds: "fetch_fails b64 Transport_error" "fetch_fails b64 (Response 404 bd)"
    "st \<noteq> 200 \<and> st \<noteq> 403 \<and> st \<noteq> 404 \<longrightarrow> fetch_fails b64 (Response st bd)"
    "fetch_fails b64 (Response 200 None)"
    by (simp_all add: fetch_fails_def)
  from fetch walk alone kinds show ?thesis by blast
qed

theorem failed_fetch_is_empty_witness:
  "fetch_fails b64_pass (Response 404 None)
   \<and> is_code_file (listing_entry ''file'' ''main.py'') = Some True
   \<and> subscript (listing_entry ''file'' ''main.py'') ''name'' = Some (JStr ''main.py'')
   \<and> subscript (listing_entry ''file'' ''main.py'') ''path'' = Some (JStr ''main.py'')
   \<and> process_items b64_pass default_room fastapi [listing_entry ''file'' ''main.py''] [] [Response 404 None]
       = (Returned [],
          [Get ''https://api.github.com/repos/tiangolo/fastapi/contents/main.py'',
           Recv (Response 404 None)],
          [])
   \<and> outcome_of (process_repo b64_pass default_room fastapi
         [Response 200 (Some (JArr [listing_entry ''file'' ''main.py''])), Response 404 None])
       = Returned []
   \<and> (500 \<noteq> (200::int) \<and> 500 \<noteq> (403::int) \<and> 500 \<noteq> (404::int))
   \<and> fetch_fails b64_pass (Response 500 None)"
proof -
  have h1: "fetch_fails b64_pass (Response 404 None)"
    by (simp add: fetch_fails_def)
  from failed_fetch_is_empty [OF h1 main_py_is_code_file main_py_name main_py_path,
      where repo = fastapi and room = default_room and rs = "[]" and items = "[]"
        and processed_files = "[]" and bd = None and st = 500]
  show ?thesis
    using h1 main_py_is_code_file main_py_name main_py_path
    by (elim conjE) (simp add: api_base_fastapi)
qed

lemma split_on_nonempty: "split_on c s \<noteq> []"
  by (induction s) (auto split: list.splits)

lemma split_on_no_sep: "c \<notin> set s \<Longrightarrow> split_on c s = [s]"
  by (induction s) auto

lemma split_on_sep: "c \<in> set s \<Longrightarrow> 2 \<le> length (split_on c s)"
proof (induction s)
  case Nil
  then show ?case by simp
next
  case (Cons x xs)
  show ?case
  proof (cases "x = c")
    case True
    then show ?thesis using split_on_nonempty[of c xs] by (cases "split_on c xs") auto
  next
    case False
    with Cons show ?thesis by (auto split: list.splits)
  qed
qed

lemma last_split_on_Cons:
  "last (split_on c (x # xs))
     = (if c \<in> set xs then last (split_on c xs) else if x = c then xs else x # xs)"
proof (cases "c \<in> set xs")
  case True
  then obtain w v ws where "split_on c xs = w # v # ws"
    using split_on_sep[of c xs] by (cases "split_on c xs"; cases "tl (split_on c xs)") auto
  with True show ?thesis by simp
next
  case False
  then show ?thesis by (simp add: split_on_no_sep)
qed

lemma last_split_on: "last (split_on c s) = rev (takeWhile (\<lambda>x. x \<noteq> c) (rev s))"
proof (induction s)
  case Nil
  then show ?case by simp
next
  case (Cons x xs)
  show ?case
  proof (cases "c \<in> set xs")
    case True
    then have "takeWhile (\<lambda>x. x \<noteq> c) (rev xs @ [x]) = takeWhile (\<lambda>x. x \<noteq> c) (rev xs)"
      by (auto simp: takeWhile_append)
    with True Cons show ?thesis by (simp add: last_split_on_Cons del: split_on.simps)
  next
    case False
    then have "takeWhile (\<lambda>x. x \<noteq> c) (rev xs @ [x]) = rev xs @ takeWhile (\<lambda>x. x \<noteq> c) [x]"
      by (auto simp: takeWhile_append)
    with False show ?thesis by (simp add: last_split_on_Cons del: split_on.simps)
  qed
qed

lemma make_doc_fields:
  "content (make_doc repo n path c) = c"
  "file_name (make_doc repo n path c) = n"
  "file_path (make_doc repo n path c) = path"
  "size_md (metadata (make_doc repo n path c)) = int (length c)"
  "extension (metadata (make_doc repo n path c)) = final_suffix n"
  by (simp_all add: make_doc_def final_suffix_def last_split_on)

lemma process_repo_returned:
  assumes "process_repo b64 room repo rs = (Returned docs, es, rs')" and "docs \<noteq> []"
  shows "\<exists>contents items rest. rs = Response 200 (Some contents) # rest
           \<and> iterate contents = Some items
           \<and> outcome_of (process_items b64 room repo items [] rest) = Returned docs"
  using assms
  by (auto simp: process_repo_def process_repo_body_def async_with_semaphore_def except_return_def Let_def
      split: list.splits response.splits if_splits option.splits prod.splits outcome.splits)

lemma is_code_file_JStr: "is_code_file (JStr k) = None"
  by (simp add: is_code_file_def subscript_def)

lemma iterate_code_file:
  assumes "iterate contents = Some items" and "item \<in> set items"
    and "is_code_file item = Some True"
  shows "contents = JArr items"
  using assms by (cases contents) (auto simp: iterate_def is_code_file_JStr)

text \<open>
  C6. Every record of the list a walk returns has a non-empty content, a size equal to
  the length of its content, and as extension the final dot-separated suffix of its file
  name; it was built for an entry of the listing whose type is \<^verbatim>\<open>file\<close>, whose name
  is the record's file name and ends in one of the seven extensions, and whose path is the
  record's file path.
\<close>

theorem records_are_well_formed:
  assumes "process_repo b64 room repo rs = (Returned docs, es, rs')" and "d \<in> set docs"
  shows "content d \<noteq> []
         \<and> size_md (metadata d) = int (length (content d))
         \<and> extension (metadata d) = final_suffix (file_name d)
         \<and> (\<exists>items rest item.
               rs = Response 200 (Some (JArr items)) # rest
               \<and> item \<in> set items
               \<and> subscript item ''type'' = Some (JStr ''file'')
               \<and> subscript item ''name'' = Some (JStr (file_name d))
               \<and> subscript item ''path'' = Some (file_path d)
               \<and> endswith_any (file_name d)
                     [''.js'', ''.ts'', ''.py'', ''.java'', ''.rs'', ''.go'', ''.cpp''])"
proof -
  from assms have "docs \<noteq> []" by auto
  from process_repo_returned[OF assms(1) this]
  obtain contents items rest where rs: "rs = Response 200 (Some contents) # rest"
    and it: "iterate contents = Some items"
    and out: "outcome_of (process_items b64 room repo items [] rest) = Returned docs"
    by blast
  from out obtain es1 rs1 where "process_items b64 room repo items [] rest = (Returned docs, es1, rs1)"
    by (cases "process_items b64 room repo items [] rest") auto
  from process_items_docs[OF this assms(2)]
  obtain item n path c where item: "item \<in> set items" and code: "is_code_file item = Some True"
    and n: "subscript item ''name'' = Some (JStr n)" and path: "subscript item ''path'' = Some path"
    and c: "c \<noteq> []" and d: "d = make_doc repo n path c"
    by auto
  from is_code_file_True[OF code] n
  have kind: "subscript item ''type'' = Some (JStr ''file'')"
    and ext: "endswith_any n code_extensions"
    by auto
  have arr: "contents = JArr items"
    using it item code by (rule iterate_code_file)
  have "\<exists>items rest item.
          rs = Response 200 (Some (JArr items)) # rest
          \<and> item \<in> set items
          \<and> subscript item ''type'' = Some (JStr ''file'')
          \<and> subscript item ''name'' = Some (JStr (file_name d))
          \<and> subscript item ''path'' = Some (file_path d)
          \<and> endswith_any (file_name d)
                [''.js'', ''.ts'', ''.py'', ''.java'', ''.rs'', ''.go'', ''.cpp'']"
    using rs arr item kind n path ext unfolding d make_doc_fields code_extensions_def by blast
  then show ?thesis
    using c unfolding d make_doc_fields by simp
qed

lemma sample_walk:
  "process_repo b64_pass default_room fastapi
     [Response 200 (Some (JArr [listing_entry ''dir'' ''docs'', listing_entry ''file'' ''main.py''])),
      Response 200 (Some (file_object ''cGFzcw==''))]
   = (Returned [make_doc fastapi ''main.py'' (JStr ''main.py'') ''pass''],
      [Acquire,
       Get ''https://api.github.com/repos/tiangolo/fastapi/contents'',
       Recv (Response 200
              (Some (JArr [listing_entry ''dir'' ''docs'', listing_entry ''file'' ''main.py'']))),
       Get ''https://api.github.com/repos/tiangolo/fastapi/contents/main.py'',
       Recv (Response 200 (Some (file_object ''cGFzcw==''))),
       Release],
      [])"
proof -
  have dir: "is_code_file (listing_entry ''dir'' ''docs'') = Some False"
    by (simp add: is_code_file_def listing_entry_def subscript_def)
  have fetch: "get_file_content b64_pass default_room (url fastapi) (JStr ''main.py'')
        [Response 200 (Some (file_object ''cGFzcw==''))]
      = (Returned ''pass'',
         [Get ''https://api.github.com/repos/tiangolo/fastapi/contents/main.py'',
          Recv (Response 200 (Some (file_object ''cGFzcw=='')))], [])"
    by (simp add: get_file_content_ok[where s = "''cGFzcw==''" and c = "''pass''"]
        file_object_content b64_pass_def api_base_fastapi)
  show ?thesis
    by (simp add: process_repo_def process_repo_body_def iterate_def dir main_py_is_code_file main_py_name main_py_path
        fetch api_base_fastapi async_with_semaphore_def)
qed

theorem records_are_well_formed_witness:
  "process_repo b64_pass default_room fastapi
     [Response 200 (Some (JArr [listing_entry ''dir'' ''docs'', listing_entry ''file'' ''main.py''])),
      Response 200 (Some (file_object ''cGFzcw==''))]
   = (Returned [make_doc fastapi ''main.py'' (JStr ''main.py'') ''pass''],
      [Acquire,
       Get ''https://api.github.com/repos/tiangolo/fastapi/contents'',
       Recv (Response 200
              (Some (JArr [listing_entry ''dir'' ''docs'', listing_entry ''file'' ''main.py'']))),
       Get ''https://api.github.com/repos/tiangolo/fastapi/contents/main.py'',
       Recv (Response 200 (Some (file_object ''cGFzcw==''))),
       Release],
      [])
   \<and> make_doc fastapi ''main.py'' (JStr ''main.py'') ''pass''
       \<in> set [make_doc fastapi ''main.py'' (JStr ''main.py'') ''pass'']
   \<and> content (make_doc fastapi ''main.py'' (JStr ''main.py'') ''pass'') \<noteq> []
   \<and> size_md (metadata (make_doc fastapi ''main.py'' (JStr ''main.py'') ''pass'')) = 4
   \<and> extension (metadata (make_doc fastapi ''main.py'' (JStr ''main.py'') ''pass''))
       = final_suffix ''main.py''
   \<and> final_suffix ''main.py'' = ''py''"
proof -
  have h2: "make_doc fastapi ''main.py'' (JStr ''main.py'') ''pass''
      \<in> set [make_doc fastapi ''main.py'' (JStr ''main.py'') ''pass'']"
    by simp
  from records_are_well_formed [OF sample_walk h2]
  show ?thesis
    using sample_walk h2 by (elim conjE) (simp add: make_doc_fields final_suffix_def)
qed

lemma process_repo_never_raises: "outcome_of (process_repo b64 room repo rs) \<noteq> Raised"
  unfolding process_repo_def by (rule except_return_not_raised)

lemma process_repo_listing_fails:
  "listing_fails r \<Longrightarrow>
   process_repo b64 room repo (r # rs)
     = (Returned [], [Acquire, Get (api_base (url repo) @ ''/contents''), Recv r, Release], rs)"
  by (auto simp: process_repo_def process_repo_body_def listing_fails_def async_with_semaphore_def Let_def
      split: response.splits)

lemma length_walks: "length (walks b64 room catalog scripts) = length (all_repos catalog)"
  by (simp add: walks_def)

lemma nth_walks:
  "j < length (all_repos catalog) \<Longrightarrow>
   walks b64 room catalog scripts ! j = process_repo b64 room (all_repos catalog ! j) (scripts j)"
  by (simp add: walks_def nth_enumerate_eq)

lemma walks_never_raise: "r \<in> set (walks b64 room catalog scripts) \<Longrightarrow> outcome_of r \<noteq> Raised"
  by (auto simp: walks_def process_repo_never_raises)

lemma gather_Raised: "gather runs = Raised \<longleftrightarrow> (\<exists>r \<in> set runs. outcome_of r = Raised)"
  by (auto simp: gather_def list_ex_iff)

lemma gather_Pending:
  "gather runs = Pending
     \<longleftrightarrow> (\<forall>r \<in> set runs. outcome_of r \<noteq> Raised) \<and> (\<exists>r \<in> set runs. outcome_of r = Pending)"
  by (auto simp: gather_def list_ex_iff)

lemma gather_Returned:
  "gather runs = Returned results \<longleftrightarrow> map outcome_of runs = map Returned results"
proof -
  have *: "(\<forall>r \<in> set runs. outcome_of r \<noteq> Raised \<and> outcome_of r \<noteq> Pending) \<Longrightarrow>
      map outcome_of runs
        = map Returned (concat (map (\<lambda>r. case outcome_of r of Returned x \<Rightarrow> [x] | _ \<Rightarrow> []) runs))"
    by (induction runs) (auto split: outcome.splits)
  have **: "map outcome_of runs = map Returned results \<Longrightarrow>
      concat (map (\<lambda>r. case outcome_of r of Returned x \<Rightarrow> [x] | _ \<Rightarrow> []) runs) = results"
    by (induction runs arbitrary: results) auto
  have ***: "map outcome_of runs = map Returned results \<Longrightarrow>
      \<forall>r \<in> set runs. outcome_of r \<noteq> Raised \<and> outcome_of r \<noteq> Pending"
    by (induction runs arbitrary: results) auto
  show ?thesis
  proof
    assume g: "gather runs = Returned results"
    then have "\<forall>r \<in> set runs. outcome_of r \<noteq> Raised \<and> outcome_of r \<noteq> Pending"
      by (auto simp: gather_def list_ex_iff split: if_splits)
    from *[OF this] g show "map outcome_of runs = map Returned results"
      by (auto simp: gather_def split: if_splits)
  next
    assume m: "map outcome_of runs = map Returned results"
    from ***[OF m] **[OF m] show "gather runs = Returned results"
      by (auto simp: gather_def list_ex_iff)
  qed
qed

lemma gather_Returned_nth:
  assumes "gather runs = Returned results"
  shows "length results = length runs"
    and "j < length runs \<Longrightarrow> outcome_of (runs ! j) = Returned (results ! j)"
proof -
  from assms have m: "map outcome_of runs = map Returned results"
    by (simp add: gather_Returned)
  then show l: "length results = length runs"
    by (metis length_map)
  show "outcome_of (runs ! j) = Returned (results ! j)" if "j < length runs"
    using that m l by (metis nth_map)
qed

text \<open>
  C4. A repository whose listing call fails (an exception, a status other than 200, a
  body that is not JSON): its walk returns the empty list after that one call, having
  given the semaphore back, and raises nothing. \<^verbatim>\<open>gather\<close> never raises; it is still
  waiting exactly when some walk has not returned; when it returns there is one result
  for each repository of the catalog, the failed one's is empty, and every walk's result
  is what that walk returns on the answers to its own calls.
\<close>

theorem failed_listing_is_isolated:
  assumes "i < length (all_repos catalog)" and "scripts i = r # rs" and "listing_fails r"
  shows "walks b64 room catalog scripts ! i
           = (Returned [],
              [Acquire, Get (api_base (url (all_repos catalog ! i)) @ ''/contents''), Recv r,
               Release],
              rs)
         \<and> gather (walks b64 room catalog scripts) \<noteq> Raised
         \<and> (gather (walks b64 room catalog scripts) = Pending
              \<longleftrightarrow> (\<exists>j < length (all_repos catalog).
                     outcome_of (process_repo b64 room (all_repos catalog ! j) (scripts j)) = Pending))
         \<and> (\<forall>results. gather (walks b64 room catalog scripts) = Returned results \<longrightarrow>
               length results = length (all_repos catalog)
               \<and> results ! i = []
               \<and> (\<forall>j < length (all_repos catalog).
                     outcome_of (process_repo b64 room (all_repos catalog ! j) (scripts j))
                       = Returned (results ! j)))"
proof -
  let ?ws = "walks b64 room catalog scripts"
  have failed: "?ws ! i
      = (Returned [],
         [Acquire, Get (api_base (url (all_repos catalog ! i)) @ ''/contents''), Recv r, Release],
         rs)"
    using assms by (simp add: nth_walks process_repo_listing_fails)
  have no_raise: "gather ?ws \<noteq> Raised"
    using walks_never_raise by (auto simp: gather_Raised)
  have "gather ?ws = Pending \<longleftrightarrow> (\<exists>w \<in> set ?ws. outcome_of w = Pending)"
    using walks_never_raise by (auto simp: gather_Pending)
  also have "\<dots> \<longleftrightarrow> (\<exists>j < length ?ws. outcome_of (?ws ! j) = Pending)"
    by (metis in_set_conv_nth)
  also have "\<dots> \<longleftrightarrow> (\<exists>j < length (all_repos catalog).
      outcome_of (process_repo b64 room (all_repos catalog ! j) (scripts j)) = Pending)"
    by (auto simp: length_walks nth_walks)
  finally have pending: "gather ?ws = Pending \<longleftrightarrow> (\<exists>j < length (all_repos catalog).
      outcome_of (process_repo b64 room (all_repos catalog ! j) (scripts j)) = Pending)" .
  have returned: "length results = length (all_repos catalog) \<and> results ! i = []
      \<and> (\<forall>j < length (all_repos catalog).
            outcome_of (process_repo b64 room (all_repos catalog ! j) (scripts j)) = Returned (results ! j))"
    if g: "gather ?ws = Returned results" for results
  proof -
    have l: "length results = length (all_repos catalog)"
      using gather_Returned_nth(1)[OF g] by (simp add: length_walks)
    have each: "outcome_of (process_repo b64 room (all_repos catalog ! j) (scripts j)) = Returned (results ! j)"
      if "j < length (all_repos catalog)" for j
      using gather_Returned_nth(2)[OF g, of j] that by (simp add: length_walks nth_walks)
    have "Returned (results ! i) = Returned ([] :: doc list)"
      using gather_Returned_nth(2)[OF g, of i] assms(1) failed by (simp add: length_walks)
    then have "results ! i = []" by simp
    with l each show ?thesis by blast
  qed
  from failed no_raise pending returned show ?thesis by blast
qed

lemma sample_walk_any:
  "process_repo b64_pass default_room repo
     [Response 200 (Some (JArr [listing_entry ''dir'' ''docs'', listing_entry ''file'' ''main.py''])),
      Response 200 (Some (file_object ''cGFzcw==''))]
   = (Returned [make_doc repo ''main.py'' (JStr ''main.py'') ''pass''],
      [Acquire,
       Get (api_base (url repo) @ ''/contents''),
       Recv (Response 200
              (Some (JArr [listing_entry ''dir'' ''docs'', listing_entry ''file'' ''main.py'']))),
       Get (api_base (url repo) @ ''/contents/main.py''),
       Recv (Response 200 (Some (file_object ''cGFzcw==''))),
       Release],
      [])"
proof -
  have dir: "is_code_file (listing_entry ''dir'' ''docs'') = Some False"
    by (simp add: is_code_file_def listing_entry_def subscript_def)
  have fetch: "get_file_content b64_pass default_room (url repo) (JStr ''main.py'')
        [Response 200 (Some (file_object ''cGFzcw==''))]
      = (Returned ''pass'',
         [Get (api_base (url repo) @ ''/contents/main.py''),
          Recv (Response 200 (Some (file_object ''cGFzcw=='')))], [])"
    by (simp add: get_file_content_ok[where s = "''cGFzcw==''" and c = "''pass''"]
        file_object_content b64_pass_def)
  show ?thesis
    by (simp add: process_repo_def process_repo_body_def iterate_def dir main_py_is_code_file main_py_name main_py_path
        fetch async_with_semaphore_def)
qed

lemma two_walks:
  "gather (walks b64_pass default_room [(''python'', [fastapi, langchain])] two_scripts)
     = Returned [[], [make_doc langchain ''main.py'' (JStr ''main.py'') ''pass'']]"
  by (simp add: gather_def walks_def all_repos_def enumerate_eq_zip upt_rec two_scripts_def
      sample_walk_any process_repo_listing_fails listing_fails_def)

theorem failed_listing_is_isolated_witness:
  "0 < length (all_repos [(''python'', [fastapi, langchain])])
   \<and> two_scripts 0 = Response 500 None # []
   \<and> listing_fails (Response 500 None)
   \<and> gather (walks b64_pass default_room [(''python'', [fastapi, langchain])] two_scripts)
       = Returned [[], [make_doc langchain ''main.py'' (JStr ''main.py'') ''pass'']]
   \<and> walks b64_pass default_room [(''python'', [fastapi, langchain])] two_scripts ! 0
       = (Returned [],
          [Acquire, Get ''https://api.github.com/repos/tiangolo/fastapi/contents'',
           Recv (Response 500 None), Release],
          [])
   \<and> [[], [make_doc langchain ''main.py'' (JStr ''main.py'') ''pass'']] ! 0 = []"
proof -
  have h1: "0 < length (all_repos [(''python'', [fastapi, langchain])])"
    by (simp add: all_repos_def)
  have h2: "two_scripts 0 = Response 500 None # []"
    by (simp add: two_scripts_def)
  have h3: "listing_fails (Response 500 None)"
    by (simp add: listing_fails_def)
  from failed_listing_is_isolated [where ?b64.0 = b64_pass and room = default_room and scripts = two_scripts and i = 0,
      OF h1 h2 h3]
  show ?thesis
    using h1 h2 h3 two_walks by (elim conjE) (simp add: all_repos_def api_base_fastapi)
qed

section \<open>Properties of the runs on the store\<close>

lemma perform_ok_prefix:
  "(\<forall>k < length cs. sink_ok (length log + k)) \<Longrightarrow> perform sink_ok log cs = (True, log @ cs)"
proof (induction cs arbitrary: log)
  case Nil
  then show ?case by simp
next
  case (Cons c cs)
  from Cons.prems have "sink_ok (length log)" by force
  moreover have "\<forall>k < length cs. sink_ok (length (log @ [c]) + k)"
    using Cons.prems by force
  ultimately show ?case using Cons.IH[of "log @ [c]"] by simp
qed

lemma perform_fails_at:
  "j < length cs \<Longrightarrow> (\<forall>k < j. sink_ok (length log + k)) \<Longrightarrow> \<not> sink_ok (length log + j) \<Longrightarrow>
   perform sink_ok log cs = (False, log @ take (Suc j) cs)"
proof (induction cs arbitrary: log j)
  case Nil
  then show ?case by simp
next
  case (Cons c cs)
  show ?case
  proof (cases j)
    case 0
    with Cons.prems show ?thesis by simp
  next
    case (Suc j')
    from Cons.prems Suc have "sink_ok (length log)" by force
    moreover have "j' < length cs" using Cons.prems Suc by simp
    moreover have "\<forall>k < j'. sink_ok (length (log @ [c]) + k)"
      using Cons.prems Suc by force
    moreover have "\<not> sink_ok (length (log @ [c]) + j')"
      using Cons.prems Suc by simp
    ultimately show ?thesis using Cons.IH[of j' "log @ [c]"] Suc by simp
  qed
qed

lemma perform_log: "perform sink_ok log cs = (b, log') \<Longrightarrow> \<exists>n. log' = log @ take n cs"
proof (induction cs arbitrary: log)
  case Nil
  then show ?case by simp
next
  case (Cons c cs)
  show ?case
  proof (cases "sink_ok (length log)")
    case True
    with Cons.prems have "perform sink_ok (log @ [c]) cs = (b, log')" by simp
    from Cons.IH[OF this] obtain n where "log' = (log @ [c]) @ take n cs" by blast
    then have "log' = log @ take (Suc n) (c # cs)" by simp
    then show ?thesis by blast
  next
    case False
    with Cons.prems have "log' = log @ take 1 (c # cs)" by simp
    then show ?thesis by blast
  qed
qed

lemma length_index_calls: "length index_calls = 7"
  by (simp add: index_calls_def)

lemma Close_not_index: "Close \<notin> set index_calls"
  by (simp add: index_calls_def)

lemma Close_not_insert: "Close \<notin> set (insert_calls results)"
  by (auto simp: insert_calls_def)

lemma main_closes:
  assumes "sink_ok 0" and "fst (main b64 room catalog scripts sink_ok) \<noteq> Pending"
  shows "\<exists>log. snd (main b64 room catalog scripts sink_ok) = Connect # log @ [Close] \<and> Close \<notin> set log"
proof -
  obtain b1 log1 where p1: "perform sink_ok [Connect] index_calls = (b1, log1)"
    by (cases "perform sink_ok [Connect] index_calls") auto
  from perform_log[OF p1] obtain n1 where l1: "log1 = [Connect] @ take n1 index_calls" by blast
  have c1: "Close \<notin> set (take n1 index_calls)"
    using Close_not_index by (meson in_set_takeD)
  show ?thesis
  proof (cases b1)
    case False
    with assms p1 l1 c1 show ?thesis by (simp add: main_def)
  next
    case True
    show ?thesis
    proof (cases "gather (walks b64 room catalog scripts)")
      case (Returned results)
      obtain b2 log2 where p2: "perform sink_ok log1 (insert_calls results) = (b2, log2)"
        by (cases "perform sink_ok log1 (insert_calls results)") auto
      from perform_log[OF p2] obtain n2 where l2: "log2 = log1 @ take n2 (insert_calls results)"
        by blast
      have c2: "Close \<notin> set (take n2 (insert_calls results))"
        using Close_not_insert by (meson in_set_takeD)
      have "snd (main b64 room catalog scripts sink_ok) = log2 @ [Close]"
        using assms(1) p1 True Returned p2 by (cases b2) (simp_all add: main_def)
      then have "snd (main b64 room catalog scripts sink_ok)
          = Connect # (take n1 index_calls @ take n2 (insert_calls results)) @ [Close]"
        using l1 l2 by simp
      moreover have "Close \<notin> set (take n1 index_calls @ take n2 (insert_calls results))"
        using c1 c2 by simp
      ultimately show ?thesis by blast
    next
      case Raised
      with assms(1) p1 True l1 c1 show ?thesis by (simp add: main_def)
    next
      case Pending
      with assms p1 True show ?thesis by (simp add: main_def)
    qed
  qed
qed

text \<open>
  C8. When the connection and the seven index creations succeed, every walk has returned,
  and an \<^verbatim>\<open>insert_many\<close> call fails (the first one to fail being number \<open>j\<close>, from 0):
  \<^verbatim>\<open>main\<close> raises; the store has seen the batches up to the failed one, each once, then
  nothing but the close; the process exits with status 1. On every run that made the
  connection and ended, by a return or by an exception, the last call on the store is the
  close, and it is the only close.
\<close>

theorem sink_failure_is_fatal:
  assumes "gather (walks b64 room catalog scripts) = Returned results"
    and "j < length (insert_calls results)"
    and "\<forall>k < 8 + j. sink_ok k" and "\<not> sink_ok (8 + j)"
  shows "main b64 room catalog scripts sink_ok
           = (Raised, Connect # index_calls @ take (Suc j) (insert_calls results) @ [Close])
         \<and> exit_status (fst (main b64 room catalog scripts sink_ok)) = Some 1
         \<and> (\<forall>scripts' sink_ok'.
               sink_ok' 0 \<and> fst (main b64 room catalog scripts' sink_ok') \<noteq> Pending \<longrightarrow>
               (\<exists>log. snd (main b64 room catalog scripts' sink_ok') = Connect # log @ [Close]
                      \<and> Close \<notin> set log))"
proof -
  have connect: "sink_ok 0"
    using assms(3) by simp
  have "\<forall>k < length index_calls. sink_ok (length [Connect] + k)"
    using assms(3) by (simp add: length_index_calls)
  then have indexes: "perform sink_ok [Connect] index_calls = (True, Connect # index_calls)"
    using perform_ok_prefix[of index_calls sink_ok "[Connect]"] by simp
  have "\<forall>k < j. sink_ok (length (Connect # index_calls) + k)"
    using assms(3) by (simp add: length_index_calls)
  moreover have "\<not> sink_ok (length (Connect # index_calls) + j)"
    using assms(4) by (simp add: length_index_calls)
  ultimately have inserts: "perform sink_ok (Connect # index_calls) (insert_calls results)
      = (False, (Connect # index_calls) @ take (Suc j) (insert_calls results))"
    using assms(2) by (intro perform_fails_at) simp_all
  have run: "main b64 room catalog scripts sink_ok
      = (Raised, Connect # index_calls @ take (Suc j) (insert_calls results) @ [Close])"
    using connect indexes assms(1) inserts by (simp add: main_def)
  then have status: "exit_status (fst (main b64 room catalog scripts sink_ok)) = Some 1"
    by (simp add: exit_status_def)
  from run status main_closes show ?thesis by blast
qed

lemma one_doc_batches: "repo_batches [d] = [[d]]"
  by (simp add: repo_batches_def batch_size_def range_step_unfold range_step_empty)

lemma no_doc_batches: "repo_batches [] = []"
  by (simp add: repo_batches_def)

lemma two_walks_inserts:
  "insert_calls [[], [make_doc langchain ''main.py'' (JStr ''main.py'') ''pass'']]
     = [Insert_many [make_doc langchain ''main.py'' (JStr ''main.py'') ''pass'']]"
  by (simp add: insert_calls_def one_doc_batches no_doc_batches)

theorem sink_failure_is_fatal_witness:
  "gather (walks b64_pass default_room [(''python'', [fastapi, langchain])] two_scripts)
     = Returned [[], [make_doc langchain ''main.py'' (JStr ''main.py'') ''pass'']]
   \<and> 0 < length (insert_calls [[], [make_doc langchain ''main.py'' (JStr ''main.py'') ''pass'']])
   \<and> (\<lambda>k. k < 8) (7::nat) \<and> \<not> (\<lambda>k. k < 8) (8 + (0::nat))
   \<and> main b64_pass default_room [(''python'', [fastapi, langchain])] two_scripts (\<lambda>k. k < 8)
       = (Raised,
          Connect # index_calls
            @ [Insert_many [make_doc langchain ''main.py'' (JStr ''main.py'') ''pass''], Close])
   \<and> exit_status
         (fst (main b64_pass default_room [(''python'', [fastapi, langchain])] two_scripts (\<lambda>k. k < 8)))
       = Some 1"
proof -
  have h2: "0 < length (insert_calls [[], [make_doc langchain ''main.py'' (JStr ''main.py'') ''pass'']])"
    by (simp add: two_walks_inserts)
  have h3: "\<forall>k < 8 + 0. (\<lambda>k. k < 8) (k::nat)"
    by simp
  have h4: "\<not> (\<lambda>k. k < 8) (8 + (0::nat))"
    by simp
  from sink_failure_is_fatal [where sink_ok = "\<lambda>k. k < 8" and j = 0, OF two_walks h2 h3 h4]
  show ?thesis
    using two_walks h2 by (elim conjE) (simp add: two_walks_inserts)
qed

lemma store_after_inserts:
  "foldl apply_call store (map Insert_many batches) = store @ concat batches"
  by (induction batches arbitrary: store) simp_all

lemma store_after_indexes: "foldl apply_call store index_calls = store"
  by (simp add: index_calls_def)

lemma concat_batches: "concat (concat (map repo_batches results)) = concat results"
  by (induction results) (simp_all add: repo_batches_eq concat_slices batch_size_def)

lemma store_after_run:
  assumes "gather (walks b64 room catalog scripts) = Returned results" and "\<forall>k. sink_ok k"
  shows "store_after store (snd (main b64 room catalog scripts sink_ok)) = store @ concat results"
  using main_all_ok[OF assms]
  by (simp add: store_after_def store_after_indexes insert_calls_def store_after_inserts
      concat_batches)

text \<open>
  C9. Two complete runs on the same catalog with the same answers from the remote, the
  store accepting every call: after the second run the store holds the records of the
  run twice, after what it held before; every record occurs in it twice as often as in
  one run; and whenever the run yields a record the second run changes the store.
\<close>

theorem rerun_duplicates:
  assumes "gather (walks b64 room catalog scripts) = Returned results"
    and "\<forall>k. sink_ok k" and "\<forall>k. sink_ok' k"
  shows "store_after (store_after store (snd (main b64 room catalog scripts sink_ok)))
           (snd (main b64 room catalog scripts sink_ok'))
           = store @ concat results @ concat results
         \<and> count_list
             (store_after (store_after [] (snd (main b64 room catalog scripts sink_ok)))
                (snd (main b64 room catalog scripts sink_ok'))) d
             = 2 * count_list (concat results) d
         \<and> (concat results \<noteq> [] \<longrightarrow>
              store_after (store_after store (snd (main b64 room catalog scripts sink_ok)))
                (snd (main b64 room catalog scripts sink_ok'))
              \<noteq> store_after store (snd (main b64 room catalog scripts sink_ok)))"
  using store_after_run[OF assms(1,2)] store_after_run[OF assms(1,3)] by simp

theorem rerun_duplicates_witness:
  "gather (walks b64_pass default_room [(''python'', [fastapi, langchain])] two_scripts)
     = Returned [[], [make_doc langchain ''main.py'' (JStr ''main.py'') ''pass'']]
   \<and> (\<forall>k. (\<lambda>k. True) (k::nat))
   \<and> store_after
         (store_after []
            (snd (main b64_pass default_room [(''python'', [fastapi, langchain])] two_scripts (\<lambda>k. True))))
         (snd (main b64_pass default_room [(''python'', [fastapi, langchain])] two_scripts (\<lambda>k. True)))
       = [make_doc langchain ''main.py'' (JStr ''main.py'') ''pass'',
          make_doc langchain ''main.py'' (JStr ''main.py'') ''pass'']
   \<and> count_list
         (store_after
            (store_after []
               (snd (main b64_pass default_room [(''python'', [fastapi, langchain])] two_scripts (\<lambda>k. True))))
            (snd (main b64_pass default_room [(''python'', [fastapi, langchain])] two_scripts (\<lambda>k. True))))
         (make_doc langchain ''main.py'' (JStr ''main.py'') ''pass'')
       = 2
   \<and> concat [[], [make_doc langchain ''main.py'' (JStr ''main.py'') ''pass'']] \<noteq> []"
proof -
  have h2: "\<forall>k. (\<lambda>k. True) (k::nat)"
    by simp
  from rerun_duplicates [where sink_ok = "\<lambda>k. True" and sink_ok' = "\<lambda>k. True" and store = "[]"
      and d = "make_doc langchain ''main.py'' (JStr ''main.py'') ''pass''", OF two_walks h2 h2]
  show ?thesis
    using two_walks by (elim conjE) simp
qed

section \<open>Properties of the permits\<close>

lemma walk_phase_append:
  "walk_phase ph (es @ es')
     = (case walk_phase ph es of None \<Rightarrow> None | Some ph' \<Rightarrow> walk_phase ph' es')"
  by (induction es arbitrary: ph) (auto split: option.splits)

lemma get_file_content_final:
  "\<not> rate_limited r \<Longrightarrow>
   \<exists>c. get_file_content b64 room u (JStr p) (r # rs)
         = (Returned c, [Get (api_base u @ ''/contents/'' @ p), Recv r], rs)"
  by (subst get_file_content.simps)
     (auto simp: Let_def rate_limited_def split: response.splits option.splits json.splits)

lemma get_file_content_phase:
  "walk_phase Holding (events_of (get_file_content b64 room u path rs))
     = Some (if outcome_of (get_file_content b64 room u path rs) = Pending then Waiting else Holding)"
proof (cases "\<exists>p. path = JStr p")
  case False
  then show ?thesis by (simp add: get_file_content_not_str)
next
  case True
  then obtain p where p: "path = JStr p" by blast
  show ?thesis unfolding p
  proof (induction rs arbitrary: room)
    case Nil
    then show ?case by (simp add: get_file_content_pending)
  next
    case (Cons r rs)
    show ?case
    proof (cases "rate_limited r")
      case True
      then obtain bd where r: "r = Response 403 bd"
        by (auto simp: rate_limited_def split: response.splits)
      show ?thesis
      proof (cases room)
        case 0
        then show ?thesis by (simp add: r get_file_content_403_no_room)
      next
        case (Suc k)
        obtain out es rs' where g: "get_file_content b64 k u (JStr p) rs = (out, es, rs')"
          by (cases "get_file_content b64 k u (JStr p) rs") auto
        with Cons[of k] show ?thesis
          by (simp add: r Suc get_file_content_403_Suc)
      qed
    next
      case False
      from get_file_content_final[OF this, of b64 room u p rs] show ?thesis by auto
    qed
  qed
qed

lemma process_items_phase:
  "walk_phase Holding (events_of (process_items b64 room repo items acc rs))
     = Some (if outcome_of (process_items b64 room repo items acc rs) = Pending then Waiting else Holding)"
proof (induction items arbitrary: acc rs)
  case Nil
  then show ?case by simp
next
  case (Cons item items)
  show ?case
  proof (cases "is_code_file item")
    case None
    then show ?thesis by simp
  next
    case (Some b)
    show ?thesis
    proof (cases b)
      case False
      with Some Cons.IH show ?thesis by simp
    next
      case True
      with Some have t: "is_code_file item = Some True" by simp
      then obtain n where n: "subscript item ''name'' = Some (JStr n)"
        using is_code_file_True by blast
      show ?thesis
      proof (cases "subscript item ''path''")
        case None
        with t n show ?thesis by simp
      next
        case (Some path)
        obtain out1 es1 rs1 where g: "get_file_content b64 room (url repo) path rs = (out1, es1, rs1)"
          by (cases "get_file_content b64 room (url repo) path rs") auto
        have ph: "walk_phase Holding es1 = Some (if out1 = Pending then Waiting else Holding)"
          using get_file_content_phase[of b64 room "url repo" path rs] g by simp
        show ?thesis
        proof (cases out1)
          case (Returned c)
          let ?acc = "if c \<noteq> [] then acc @ [make_doc repo n path c] else acc"
          obtain out2 es2 rs2 where p: "process_items b64 room repo items ?acc rs1 = (out2, es2, rs2)"
            by (cases "process_items b64 room repo items ?acc rs1") auto
          have "process_items b64 room repo (item # items) acc rs = (out2, es1 @ es2, rs2)"
            using t n Some g Returned p by simp
          moreover have "walk_phase Holding es2 = Some (if out2 = Pending then Waiting else Holding)"
            using Cons.IH[of ?acc rs1] p by simp
          ultimately show ?thesis using ph Returned by (simp add: walk_phase_append)
        next
          case Raised
          with t n Some g ph show ?thesis by simp
        next
          case Pending
          with t n Some g ph show ?thesis by simp
        qed
      qed
    qed
  qed
qed

lemma async_with_semaphore_phase:
  assumes "walk_phase Holding (events_of r) = Some (if outcome_of r = Pending then Waiting else Holding)"
  shows "walk_phase Outside (events_of (async_with_semaphore r))
           = Some (if outcome_of (async_with_semaphore r) = Pending then Waiting else Left)"
  using assms by (cases r) (auto simp: async_with_semaphore_def walk_phase_append)

lemma except_return_pending:
  "outcome_of (except_return d r) = Pending \<longleftrightarrow> outcome_of r = Pending"
  by (cases r) (auto simp: except_return_def split: outcome.splits)

lemma async_with_semaphore_pending:
  "outcome_of (async_with_semaphore r) = Pending \<longleftrightarrow> outcome_of r = Pending"
  by (cases r) (auto simp: async_with_semaphore_def)

lemma process_repo_body_phase:
  "walk_phase Holding (events_of (process_repo_body b64 room repo rs))
     = Some (if outcome_of (process_repo_body b64 room repo rs) = Pending then Waiting else Holding)"
proof -
  have items: "walk_phase Holding es = Some (if out = Pending then Waiting else Holding)"
    if "process_items b64 room repo items [] rs' = (out, es, rs'')" for items rs' out es rs''
    using process_items_phase[of b64 room repo items "[]" rs'] that by simp
  show ?thesis
    by (auto simp: process_repo_body_def Let_def items
        split: list.splits response.splits option.splits prod.splits)
qed

lemma process_repo_phase:
  "walk_phase Outside (events_of (process_repo b64 room repo rs))
     = Some (if outcome_of (process_repo b64 room repo rs) = Pending then Waiting else Left)"
  unfolding process_repo_def except_return_events except_return_pending
  by (rule async_with_semaphore_phase) (rule process_repo_body_phase)

lemma permits_held_snoc:
  "permits_held (es @ [e])
     = permits_held es + (if e = Acquire then 1 else if e = Release then - 1 else 0)"
  by (simp add: permits_held_def)

lemma calls_in_flight_snoc:
  "calls_in_flight (es @ [e])
     = calls_in_flight es + (if is_get e then 1 else if is_recv e then - 1 else 0)"
  by (cases e) (simp_all add: calls_in_flight_def is_get_def is_recv_def)

lemma permits_held_Cons:
  "permits_held (e # es)
     = (if e = Acquire then 1 else if e = Release then - 1 else 0) + permits_held es"
  by (simp add: permits_held_def)

lemma calls_in_flight_Cons:
  "calls_in_flight (e # es)
     = (if is_get e then 1 else if is_recv e then - 1 else 0) + calls_in_flight es"
  by (cases e) (simp_all add: calls_in_flight_def is_get_def is_recv_def)

lemma advance_counts:
  "advance ph e = Some ph' \<Longrightarrow>
   phase_permits ph' = phase_permits ph + (if e = Acquire then 1 else if e = Release then - 1 else 0)
   \<and> phase_calls ph' = phase_calls ph + (if is_get e then 1 else if is_recv e then - 1 else 0)"
  by (cases ph; cases e) (simp_all add: is_get_def is_recv_def)

lemma walk_phase_counts:
  "walk_phase ph es = Some ph' \<Longrightarrow>
   permits_held es = phase_permits ph' - phase_permits ph
   \<and> calls_in_flight es = phase_calls ph' - phase_calls ph"
proof (induction es arbitrary: ph)
  case Nil
  then show ?case by (simp add: permits_held_def calls_in_flight_def)
next
  case (Cons e es)
  then obtain ph1 where a: "advance ph e = Some ph1" and w: "walk_phase ph1 es = Some ph'"
    by (auto split: option.splits)
  from advance_counts[OF a] Cons.IH[OF w] show ?case
    by (simp only: permits_held_Cons calls_in_flight_Cons) linarith
qed

lemma walk_phase_prefix:
  "walk_phase ph (es @ es') \<noteq> None \<Longrightarrow> walk_phase ph es \<noteq> None"
  by (auto simp: walk_phase_append split: option.splits)

lemma prefix_counts:
  assumes "walk_phase Outside (es @ es') \<noteq> None"
  shows "0 \<le> calls_in_flight es \<and> calls_in_flight es \<le> permits_held es \<and> permits_held es \<le> 1"
proof -
  from walk_phase_prefix[OF assms] obtain ph where ph: "walk_phase Outside es = Some ph"
    by auto
  from walk_phase_counts[OF ph] show ?thesis by (cases ph) simp_all
qed

text \<open>The invariant of the runs of the event loop over given lists of events.\<close>

lemma fire_cases:
  assumes "fire i (v, ts) = Some c'"
  obtains performed e es where "i < length ts" and "ts ! i = (performed, e # es)"
    and "c' = ((if e = Acquire then v - 1 else if e = Release then v + 1 else v),
               ts[i := (performed @ [e], es)])"
    and "e = Acquire \<longrightarrow> 0 < v"
proof -
  from assms have i: "i < length ts"
    by (auto simp: fire_def split: if_splits)
  obtain performed todo where t: "ts ! i = (performed, todo)"
    by (cases "ts ! i") auto
  with assms i obtain e es where todo: "todo = e # es"
    by (cases todo) (auto simp: fire_def)
  from assms i t todo
  have "c' = ((if e = Acquire then v - 1 else if e = Release then v + 1 else v),
              ts[i := (performed @ [e], es)])"
    and "e = Acquire \<longrightarrow> 0 < v"
    by (cases e; auto simp: fire_def split: if_splits)+
  with i t todo that show ?thesis by blast
qed

lemma sum_list_map_update:
  fixes f :: "'a \<Rightarrow> int"
  shows "i < length xs \<Longrightarrow>
    sum_list (map f (xs[i := y])) = sum_list (map f xs) - f (xs ! i) + f y"
proof (induction xs arbitrary: i)
  case Nil
  then show ?case by simp
next
  case (Cons x xs)
  then show ?case by (cases i) simp_all
qed

lemma fire_invariant:
  assumes "fire i (v, ts) = Some (v', ts')"
    and "map (\<lambda>t. fst t @ snd t) ts = traces"
    and "int v + sum_list (map (\<lambda>t. permits_held (fst t)) ts) = m"
  shows "map (\<lambda>t. fst t @ snd t) ts' = traces
         \<and> int v' + sum_list (map (\<lambda>t. permits_held (fst t)) ts') = m"
proof -
  from assms(1) obtain performed e es where i: "i < length ts"
    and t: "ts ! i = (performed, e # es)"
    and c: "(v', ts') = ((if e = Acquire then v - 1 else if e = Release then v + 1 else v),
               ts[i := (performed @ [e], es)])"
    and pos: "e = Acquire \<longrightarrow> 0 < v"
    by (rule fire_cases)
  from c have v': "v' = (if e = Acquire then v - 1 else if e = Release then v + 1 else v)"
    and ts': "ts' = ts[i := (performed @ [e], es)]"
    by simp_all
  have "map (\<lambda>t. fst t @ snd t) ts' = (map (\<lambda>t. fst t @ snd t) ts)[i := performed @ e # es]"
    unfolding ts' by (simp add: map_update)
  also have "\<dots> = map (\<lambda>t. fst t @ snd t) ts"
    using i t by (metis (mono_tags, lifting) fst_conv snd_conv list_update_id nth_map)
  finally have traces: "map (\<lambda>t. fst t @ snd t) ts' = traces"
    using assms(2) by simp
  have "sum_list (map (\<lambda>t. permits_held (fst t)) ts')
      = sum_list (map (\<lambda>t. permits_held (fst t)) ts) - permits_held performed
        + permits_held (performed @ [e])"
    unfolding ts' using i t by (simp add: sum_list_map_update)
  then have "int v' + sum_list (map (\<lambda>t. permits_held (fst t)) ts')
      = int v + sum_list (map (\<lambda>t. permits_held (fst t)) ts)"
    using pos unfolding v' by (auto simp: permits_held_snoc)
  with traces assms(3) show ?thesis by simp
qed

lemma run_schedule_invariant:
  assumes "run_schedule sched (v, ts) = Some (v', ts')"
    and "map (\<lambda>t. fst t @ snd t) ts = traces"
    and "int v + sum_list (map (\<lambda>t. permits_held (fst t)) ts) = m"
  shows "map (\<lambda>t. fst t @ snd t) ts' = traces
         \<and> int v' + sum_list (map (\<lambda>t. permits_held (fst t)) ts') = m"
  using assms
proof (induction sched arbitrary: v ts)
  case Nil
  then show ?case by simp
next
  case (Cons i sched)
  from Cons.prems(1) obtain v1 ts1 where f: "fire i (v, ts) = Some (v1, ts1)"
    and r: "run_schedule sched (v1, ts1) = Some (v', ts')"
    by (auto split: option.splits)
  from fire_invariant[OF f Cons.prems(2,3)] Cons.IH[OF r] show ?case by blast
qed

lemma walk_phase_Left: "walk_phase Left es = Some ph \<Longrightarrow> es = [] \<and> ph = Left"
  by (cases es) auto

lemma no_permit_events_inside:
  "walk_phase ph es = Some ph' \<Longrightarrow> ph = Holding \<or> ph = Waiting \<Longrightarrow> ph' = Holding \<or> ph' = Waiting \<Longrightarrow>
   Acquire \<notin> set es \<and> Release \<notin> set es"
proof (induction es arbitrary: ph)
  case Nil
  then show ?case by simp
next
  case (Cons e es)
  then obtain ph1 where a: "advance ph e = Some ph1" and w: "walk_phase ph1 es = Some ph'"
    by (auto split: option.splits)
  have e: "e \<noteq> Acquire" "e \<noteq> Release \<or> ph1 = Left"
    using a Cons.prems(2) by (cases e; auto)+
  have ph1: "ph1 = Holding \<or> ph1 = Waiting"
  proof (cases "ph1 = Left")
    case True
    with w Cons.prems(3) show ?thesis using walk_phase_Left by blast
  next
    case False
    with a Cons.prems(2) show ?thesis by (cases e; auto)
  qed
  with e have "e \<noteq> Release" by auto
  with e(1) Cons.IH[OF w ph1 Cons.prems(3)] show ?case by simp
qed

lemma get_file_content_no_permit:
  "Acquire \<notin> set (events_of (get_file_content b64 room u path rs))
   \<and> Release \<notin> set (events_of (get_file_content b64 room u path rs))"
  by (rule no_permit_events_inside[OF get_file_content_phase]) simp_all

lemma process_repo_body_no_permit:
  "Acquire \<notin> set (events_of (process_repo_body b64 room repo rs))
   \<and> Release \<notin> set (events_of (process_repo_body b64 room repo rs))"
  by (rule no_permit_events_inside[OF process_repo_body_phase]) simp_all

lemma process_repo_events:
  "events_of (process_repo b64 room repo rs)
     = Acquire # events_of (process_repo_body b64 room repo rs)
         @ (if outcome_of (process_repo b64 room repo rs) = Pending then [] else [Release])"
  unfolding process_repo_def except_return_events except_return_pending
  by (cases "process_repo_body b64 room repo rs") (simp add: async_with_semaphore_def)

lemma start_config_tasks:
  assumes "run_schedule sched (start_config b64 room catalog scripts) = Some (v, ts)"
  shows "map (\<lambda>t. fst t @ snd t) ts = map events_of (walks b64 room catalog scripts)"
    and "int v + sum_list (map (\<lambda>t. permits_held (fst t)) ts) = int MAX_CONCURRENT_REQUESTS"
proof -
  let ?ts0 = "map (\<lambda>r. ([], events_of r)) (walks b64 room catalog scripts)"
  have r: "run_schedule sched (MAX_CONCURRENT_REQUESTS, ?ts0) = Some (v, ts)"
    using assms by (simp add: start_config_def)
  have t0: "map (\<lambda>t. fst t @ snd t) ?ts0 = map events_of (walks b64 room catalog scripts)"
    by (simp add: comp_def)
  have "sum_list (map (\<lambda>t. permits_held (fst t)) ?ts0) = 0"
    by (simp add: comp_def permits_held_def)
  then have s0: "int MAX_CONCURRENT_REQUESTS + sum_list (map (\<lambda>t. permits_held (fst t)) ?ts0)
      = int MAX_CONCURRENT_REQUESTS"
    by simp
  from run_schedule_invariant[OF r t0 s0]
  show "map (\<lambda>t. fst t @ snd t) ts = map events_of (walks b64 room catalog scripts)"
    and "int v + sum_list (map (\<lambda>t. permits_held (fst t)) ts) = int MAX_CONCURRENT_REQUESTS"
    by simp_all
qed

lemma task_counts:
  assumes "run_schedule sched (start_config b64 room catalog scripts) = Some (v, ts)" and "t \<in> set ts"
  shows "0 \<le> calls_in_flight (fst t) \<and> calls_in_flight (fst t) \<le> permits_held (fst t)
         \<and> permits_held (fst t) \<le> 1"
proof -
  from assms(2) have "fst t @ snd t \<in> set (map (\<lambda>t. fst t @ snd t) ts)"
    by auto
  then have "fst t @ snd t \<in> set (map events_of (walks b64 room catalog scripts))"
    using start_config_tasks(1)[OF assms(1)] by simp
  then obtain repo rs where "fst t @ snd t = events_of (process_repo b64 room repo rs)"
    by (auto simp: walks_def)
  then have "walk_phase Outside (fst t @ snd t) \<noteq> None"
    by (simp add: process_repo_phase)
  then show ?thesis by (rule prefix_counts)
qed

lemma count_positive:
  fixes f :: "'a \<Rightarrow> int"
  shows "(\<And>x. x \<in> set xs \<Longrightarrow> 0 \<le> f x \<and> f x \<le> 1) \<Longrightarrow>
    int (length (filter (\<lambda>x. 0 < f x) xs)) = sum_list (map f xs)"
proof (induction xs)
  case Nil
  then show ?case by simp
next
  case (Cons x xs)
  have "0 \<le> f x \<and> f x \<le> 1" using Cons.prems by simp
  then have "f x = 0 \<or> f x = 1" by linarith
  moreover have "int (length (filter (\<lambda>x. 0 < f x) xs)) = sum_list (map f xs)"
    using Cons by simp
  ultimately show ?case by auto
qed

lemma config_bounds:
  assumes "run_schedule sched (start_config b64 room catalog scripts) = Some c"
  shows "total_in_flight c \<le> int MAX_CONCURRENT_REQUESTS"
    and "int (walks_in_progress c) \<le> int MAX_CONCURRENT_REQUESTS"
proof -
  obtain v ts where c: "c = (v, ts)" by (cases c)
  note r = assms[unfolded c]
  have each: "0 \<le> calls_in_flight (fst t) \<and> calls_in_flight (fst t) \<le> permits_held (fst t)
      \<and> permits_held (fst t) \<le> 1" if "t \<in> set ts" for t
    using task_counts[OF r that] .
  have held: "sum_list (map (\<lambda>t. permits_held (fst t)) ts) \<le> int MAX_CONCURRENT_REQUESTS"
    using start_config_tasks(2)[OF r] by linarith
  have "sum_list (map (\<lambda>t. calls_in_flight (fst t)) ts)
      \<le> sum_list (map (\<lambda>t. permits_held (fst t)) ts)"
    using each by (intro sum_list_mono) simp
  with held show "total_in_flight c \<le> int MAX_CONCURRENT_REQUESTS"
    by (simp add: c total_in_flight_def)
  have "int (length (filter (\<lambda>t. 0 < permits_held (fst t)) ts))
      = sum_list (map (\<lambda>t. permits_held (fst t)) ts)"
    using each by (intro count_positive) force
  with held show "int (walks_in_progress c) \<le> int MAX_CONCURRENT_REQUESTS"
    by (simp add: c walks_in_progress_def)
qed

text \<open>
  C1. In every configuration that the event loop can reach from the start of the walks,
  for any catalog, any answers of the remote and any order in which the tasks move, the
  remote calls in flight, listing calls and file fetches of all tasks together, are at
  most \<open>MAX_CONCURRENT_REQUESTS\<close>, which is 3.
\<close>

theorem at_most_three_calls_in_flight:
  assumes "run_schedule sched (start_config b64 room catalog scripts) = Some c"
  shows "total_in_flight c \<le> int MAX_CONCURRENT_REQUESTS \<and> total_in_flight c \<le> 3"
  using config_bounds(1)[OF assms] by (simp add: MAX_CONCURRENT_REQUESTS_def)

lemma fastapi_pending:
  "process_repo b64 room repo [] = (Pending, [Acquire, Get (api_base (url repo) @ ''/contents'')], [])"
  by (simp add: process_repo_def process_repo_body_def async_with_semaphore_def)

lemma langchain_url: "url langchain = ''https://github.com/langchain-ai/langchain''"
  by (simp add: langchain_def all_repos_def VERIFIED_REPOS_def)

lemma api_base_langchain:
  "api_base (url langchain) = ''https://api.github.com/repos/langchain-ai/langchain''"
  by (simp add: langchain_url api_base_def)

lemma four_walks_start:
  "start_config b64_pass default_room [(''python'', [fastapi, langchain]), (''typescript'', [fastapi, langchain])]
     (\<lambda>i. [])
   = (3,
      [([], [Acquire, Get ''https://api.github.com/repos/tiangolo/fastapi/contents'']),
       ([], [Acquire, Get ''https://api.github.com/repos/langchain-ai/langchain/contents'']),
       ([], [Acquire, Get ''https://api.github.com/repos/tiangolo/fastapi/contents'']),
       ([], [Acquire, Get ''https://api.github.com/repos/langchain-ai/langchain/contents''])])"
  by (simp add: start_config_def walks_def all_repos_def enumerate_eq_zip upt_rec
      fastapi_pending api_base_fastapi api_base_langchain MAX_CONCURRENT_REQUESTS_def)

lemma four_walks_run:
  "run_schedule [0, 0, 1, 1, 2, 2]
     (start_config b64_pass default_room
        [(''python'', [fastapi, langchain]), (''typescript'', [fastapi, langchain])] (\<lambda>i. []))
   = Some (0,
      [([Acquire, Get ''https://api.github.com/repos/tiangolo/fastapi/contents''], []),
       ([Acquire, Get ''https://api.github.com/repos/langchain-ai/langchain/contents''], []),
       ([Acquire, Get ''https://api.github.com/repos/tiangolo/fastapi/contents''], []),
       ([], [Acquire, Get ''https://api.github.com/repos/langchain-ai/langchain/contents''])])"
  by (simp add: four_walks_start fire_def)

theorem at_most_three_calls_in_flight_witness:
  "run_schedule [0, 0, 1, 1, 2, 2]
     (start_config b64_pass default_room
        [(''python'', [fastapi, langchain]), (''typescript'', [fastapi, langchain])] (\<lambda>i. []))
   = Some (0,
      [([Acquire, Get ''https://api.github.com/repos/tiangolo/fastapi/contents''], []),
       ([Acquire, Get ''https://api.github.com/repos/langchain-ai/langchain/contents''], []),
       ([Acquire, Get ''https://api.github.com/repos/tiangolo/fastapi/contents''], []),
       ([], [Acquire, Get ''https://api.github.com/repos/langchain-ai/langchain/contents''])])
   \<and> total_in_flight (0,
      [([Acquire, Get ''https://api.github.com/repos/tiangolo/fastapi/contents''], []),
       ([Acquire, Get ''https://api.github.com/repos/langchain-ai/langchain/contents''], []),
       ([Acquire, Get ''https://api.github.com/repos/tiangolo/fastapi/contents''], []),
       ([], [Acquire, Get ''https://api.github.com/repos/langchain-ai/langchain/contents''])])
     \<le> 3
   \<and> total_in_flight (0,
      [([Acquire, Get ''https://api.github.com/repos/tiangolo/fastapi/contents''], []),
       ([Acquire, Get ''https://api.github.com/repos/langchain-ai/langchain/contents''], []),
       ([Acquire, Get ''https://api.github.com/repos/tiangolo/fastapi/contents''], []),
       ([], [Acquire, Get ''https://api.github.com/repos/langchain-ai/langchain/contents''])])
     = 3
   \<and> fire 3 (0,
      [([Acquire, Get ''https://api.github.com/repos/tiangolo/fastapi/contents''], []),
       ([Acquire, Get ''https://api.github.com/repos/langchain-ai/langchain/contents''], []),
       ([Acquire, Get ''https://api.github.com/repos/tiangolo/fastapi/contents''], []),
       ([], [Acquire, Get ''https://api.github.com/repos/langchain-ai/langchain/contents''])])
     = None"
  using at_most_three_calls_in_flight [OF four_walks_run] four_walks_run
  by (simp add: fire_def total_in_flight_def calls_in_flight_def is_get_def is_recv_def)

text \<open>
  C10. In every configuration that the event loop can reach, each task has at most one
  remote call in flight, has one only while it holds the permit, and holds at most one
  permit; at most 3 tasks hold a permit. The events of any walk follow the pattern of
  \<open>walk_phase\<close>: the permit is taken once at the start, every request (the listing,
  then each file fetch and each retry) is answered before the next event of the walk,
  and the permit is given back once at the end, unless the walk is still waiting for an
  answer. The fetcher never takes the semaphore.
\<close>

theorem walk_is_sequential_under_one_permit:
  assumes "run_schedule sched (start_config b64 room catalog scripts) = Some c" and "t \<in> set (snd c)"
  shows "0 \<le> calls_in_flight (fst t) \<and> calls_in_flight (fst t) \<le> 1
         \<and> calls_in_flight (fst t) \<le> permits_held (fst t) \<and> permits_held (fst t) \<le> 1
         \<and> walks_in_progress c \<le> 3
         \<and> walk_phase Outside (events_of (process_repo b64 room repo rs))
             = Some (if outcome_of (process_repo b64 room repo rs) = Pending then Waiting else Left)
         \<and> Acquire \<notin> set (events_of (get_file_content b64 room u path rs'))"
proof -
  obtain v ts where c: "c = (v, ts)" by (cases c)
  from assms have "0 \<le> calls_in_flight (fst t) \<and> calls_in_flight (fst t) \<le> permits_held (fst t)
      \<and> permits_held (fst t) \<le> 1"
    unfolding c by (intro task_counts) simp_all
  moreover have "walks_in_progress c \<le> 3"
    using config_bounds(2)[OF assms(1)] by (simp add: MAX_CONCURRENT_REQUESTS_def)
  ultimately show ?thesis
    using process_repo_phase[of b64 room repo rs] get_file_content_no_permit[of b64 room u path rs']
    by simp
qed

lemma two_walks_start:
  "start_config b64_pass default_room [(''python'', [fastapi, langchain])] two_scripts
   = (3,
      [([], [Acquire, Get ''https://api.github.com/repos/tiangolo/fastapi/contents'',
             Recv (Response 500 None), Release]),
       ([], [Acquire, Get ''https://api.github.com/repos/langchain-ai/langchain/contents'',
             Recv (Response 200
                    (Some (JArr [listing_entry ''dir'' ''docs'', listing_entry ''file'' ''main.py'']))),
             Get ''https://api.github.com/repos/langchain-ai/langchain/contents/main.py'',
             Recv (Response 200 (Some (file_object ''cGFzcw==''))),
             Release])])"
  by (simp add: start_config_def walks_def all_repos_def enumerate_eq_zip upt_rec two_scripts_def
      sample_walk_any process_repo_listing_fails listing_fails_def
      api_base_fastapi api_base_langchain MAX_CONCURRENT_REQUESTS_def)

lemma two_walks_run:
  "run_schedule [1, 1, 1, 1, 0, 0]
     (start_config b64_pass default_room [(''python'', [fastapi, langchain])] two_scripts)
   = Some (1,
      [([Acquire, Get ''https://api.github.com/repos/tiangolo/fastapi/contents''],
        [Recv (Response 500 None), Release]),
       ([Acquire, Get ''https://api.github.com/repos/langchain-ai/langchain/contents'',
         Recv (Response 200
                (Some (JArr [listing_entry ''dir'' ''docs'', listing_entry ''file'' ''main.py'']))),
         Get ''https://api.github.com/repos/langchain-ai/langchain/contents/main.py''],
        [Recv (Response 200 (Some (file_object ''cGFzcw==''))), Release])])"
  by (simp add: two_walks_start fire_def)

theorem walk_is_sequential_under_one_permit_witness:
  "run_schedule [1, 1, 1, 1, 0, 0]
     (start_config b64_pass default_room [(''python'', [fastapi, langchain])] two_scripts)
   = Some (1,
      [([Acquire, Get ''https://api.github.com/repos/tiangolo/fastapi/contents''],
        [Recv (Response 500 None), Release]),
       ([Acquire, Get ''https://api.github.com/repos/langchain-ai/langchain/contents'',
         Recv (Response 200
                (Some (JArr [listing_entry ''dir'' ''docs'', listing_entry ''file'' ''main.py'']))),
         Get ''https://api.github.com/repos/langchain-ai/langchain/contents/main.py''],
        [Recv (Response 200 (Some (file_object ''cGFzcw==''))), Release])])
   \<and> calls_in_flight
         [Acquire, Get ''https://api.github.com/repos/langchain-ai/langchain/contents'',
          Recv (Response 200
                 (Some (JArr [listing_entry ''dir'' ''docs'', listing_entry ''file'' ''main.py'']))),
          Get ''https://api.github.com/repos/langchain-ai/langchain/contents/main.py'']
       = 1
   \<and> permits_held
         [Acquire, Get ''https://api.github.com/repos/langchain-ai/langchain/contents'',
          Recv (Response 200
                 (Some (JArr [listing_entry ''dir'' ''docs'', listing_entry ''file'' ''main.py'']))),
          Get ''https://api.github.com/repos/langchain-ai/langchain/contents/main.py'']
       \<le> 1
   \<and> walk_phase Outside (events_of (process_repo b64_pass default_room fastapi [])) = Some Waiting"
proof -
  let ?t = "([Acquire, Get ''https://api.github.com/repos/langchain-ai/langchain/contents'',
         Recv (Response 200
                (Some (JArr [listing_entry ''dir'' ''docs'', listing_entry ''file'' ''main.py'']))),
         Get ''https://api.github.com/repos/langchain-ai/langchain/contents/main.py''],
        [Recv (Response 200 (Some (file_object ''cGFzcw==''))), Release])"
  have h2: "?t \<in> set (snd (1 :: nat,
      [([Acquire, Get ''https://api.github.com/repos/tiangolo/fastapi/contents''],
        [Recv (Response 500 None), Release]), ?t]))"
    by simp
  from walk_is_sequential_under_one_permit [OF two_walks_run h2,
      where repo = fastapi and rs = "[]" and u = "''''" and path = JNull and rs' = "[]"]
  show ?thesis
    using two_walks_run
    by (elim conjE) (simp add: calls_in_flight_def is_get_def is_recv_def fastapi_pending)
qed

text \<open>
  C2, as the code has it. A walk takes the semaphore once, before the listing call, and
  holds it over the listing and every file fetch; it gives it back once, when the body
  is left by a return or an exception, and has not given it back while it waits for an
  answer. Neither the body nor the fetcher takes or gives back the semaphore.
\<close>

theorem walk_holds_one_permit:
  "events_of (process_repo b64 room repo rs)
     = Acquire # events_of (process_repo_body b64 room repo rs)
         @ (if outcome_of (process_repo b64 room repo rs) = Pending then [] else [Release])
   \<and> Acquire \<notin> set (events_of (process_repo_body b64 room repo rs))
   \<and> Release \<notin> set (events_of (process_repo_body b64 room repo rs))
   \<and> Acquire \<notin> set (events_of (get_file_content b64 room u path rs'))
   \<and> Release \<notin> set (events_of (get_file_content b64 room u path rs'))"
  using process_repo_events[of b64 room repo rs] process_repo_body_no_permit[of b64 room repo rs]
    get_file_content_no_permit[of b64 room u path rs']
  by blast

text \<open>
  C2, as stated, asks for a permit of its own for each remote call, the listing permit
  being given back before the first file fetch. The walk of a repository that lists one
  code file sends the listing request and the file request during one holding of the
  semaphore.
\<close>

theorem permit_per_call_counterexample:
  "\<not> permit_per_call None
       (events_of
          (process_repo b64_pass default_room fastapi
             [Response 200
                (Some (JArr [listing_entry ''dir'' ''docs'', listing_entry ''file'' ''main.py''])),
              Response 200 (Some (file_object ''cGFzcw==''))]))"
  by (simp add: sample_walk)

section \<open>A run that yields 250 records\<close>

lemma endswith_append: "endswith (xs @ suf) suf"
  by (simp add: endswith_def)

lemma many_names_py: "n \<in> set many_names \<Longrightarrow> endswith_any n code_extensions"
proof -
  assume "n \<in> set many_names"
  then obtain i where "n = replicate (Suc i) (CHR ''m'') @ ''.py''"
    by (auto simp: many_names_def simp del: replicate_Suc)
  then have "endswith n ''.py''"
    by (simp only: endswith_append)
  then show ?thesis
    by (simp add: endswith_any_def code_extensions_def)
qed

lemma length_many_names: "length many_names = 250"
  by (simp add: many_names_def)

lemma code_file_entry:
  "endswith_any n code_extensions \<Longrightarrow> is_code_file (listing_entry ''file'' n) = Some True"
  "subscript (listing_entry ''file'' n) ''name'' = Some (JStr n)"
  "subscript (listing_entry ''file'' n) ''path'' = Some (JStr n)"
  by (simp_all add: is_code_file_def listing_entry_def subscript_def)

lemma process_items_all_fetched:
  "(\<And>n. n \<in> set ns \<Longrightarrow> endswith_any n code_extensions) \<Longrightarrow>
   outcome_of (process_items b64_pass room repo (map (listing_entry ''file'') ns) acc
      (replicate (length ns) (Response 200 (Some (file_object ''cGFzcw==''))) @ rs))
     = Returned (acc @ map (\<lambda>n. make_doc repo n (JStr n) ''pass'') ns)"
proof (induction ns arbitrary: acc)
  case Nil
  then show ?case by simp
next
  case (Cons n ns)
  let ?ok = "Response 200 (Some (file_object ''cGFzcw==''))"
  have code: "is_code_file (listing_entry ''file'' n) = Some True"
    using Cons.prems by (simp add: code_file_entry)
  have fetch: "get_file_content b64_pass room (url repo) (JStr n) (?ok # replicate (length ns) ?ok @ rs)
      = (Returned ''pass'',
         [Get (api_base (url repo) @ ''/contents/'' @ n), Recv ?ok], replicate (length ns) ?ok @ rs)"
    by (simp add: get_file_content_ok[where s = "''cGFzcw==''" and c = "''pass''"]
        file_object_content b64_pass_def)
  have rest: "outcome_of (process_items b64_pass room repo (map (listing_entry ''file'') ns)
        (acc @ [make_doc repo n (JStr n) ''pass'']) (replicate (length ns) ?ok @ rs))
      = Returned ((acc @ [make_doc repo n (JStr n) ''pass''])
                   @ map (\<lambda>n. make_doc repo n (JStr n) ''pass'') ns)"
    using Cons.prems by (intro Cons.IH) simp
  show ?case
    using process_items_fetch[OF code code_file_entry(2,3) fetch,
        of "map (listing_entry ''file'') ns" acc] rest
    by (simp del: process_items.simps(2) split: prod.splits)
qed

lemma many_files_walk:
  "outcome_of (process_repo b64_pass room repo (many_files i))
     = Returned (map (\<lambda>n. make_doc repo n (JStr n) ''pass'') many_names)"
proof -
  have "outcome_of (process_items b64_pass room repo (map (listing_entry ''file'') many_names) []
        (replicate (length many_names) (Response 200 (Some (file_object ''cGFzcw==''))) @ []))
      = Returned ([] @ map (\<lambda>n. make_doc repo n (JStr n) ''pass'') many_names)"
    by (rule process_items_all_fetched) (rule many_names_py)
  then obtain es rs' where "process_items b64_pass room repo
        (map (listing_entry ''file'') many_names) []
        (replicate 250 (Response 200 (Some (file_object ''cGFzcw==''))))
      = (Returned (map (\<lambda>n. make_doc repo n (JStr n) ''pass'') many_names), es, rs')"
    by (cases "process_items b64_pass room repo (map (listing_entry ''file'') many_names) []
        (replicate 250 (Response 200 (Some (file_object ''cGFzcw==''))))")
       (simp add: length_many_names)
  then show ?thesis
    by (simp add: many_files_def process_repo_def process_repo_body_def iterate_def
        async_with_semaphore_def)
qed

lemma many_files_gather:
  "gather (walks b64_pass room [(''python'', [fastapi])] many_files)
     = Returned [map (\<lambda>n. make_doc fastapi n (JStr n) ''pass'') many_names]"
  using many_files_walk[of room fastapi 0]
  by (simp add: gather_Returned walks_def all_repos_def enumerate_eq_zip)


theorem batch_insert_calls_witness:
  "gather (walks b64_pass default_room [(''python'', [fastapi])] many_files)
     = Returned [map (\<lambda>n. make_doc fastapi n (JStr n) ''pass'') many_names]
   \<and> (\<forall>k. (\<lambda>k. True) k)
   \<and> length (map (\<lambda>n. make_doc fastapi n (JStr n) ''pass'') many_names) = 250
   \<and> snd (main b64_pass default_room [(''python'', [fastapi])] many_files (\<lambda>k. True))
       = Connect # index_calls
           @ map Insert_many
               (repo_batches (map (\<lambda>n. make_doc fastapi n (JStr n) ''pass'') many_names))
           @ [Close]
   \<and> length (repo_batches (map (\<lambda>n. make_doc fastapi n (JStr n) ''pass'') many_names)) = 3
   \<and> map length (repo_batches (map (\<lambda>n. make_doc fastapi n (JStr n) ''pass'') many_names))
       = [100, 100, 50]
   \<and> concat (repo_batches (map (\<lambda>n. make_doc fastapi n (JStr n) ''pass'') many_names))
       = map (\<lambda>n. make_doc fastapi n (JStr n) ''pass'') many_names"
proof -
  have h2: "\<forall>k. (\<lambda>k. True) (k::nat)"
    by simp
  from batch_insert_calls [where sink_ok = "\<lambda>k. True" and room = default_room
      and repo_contents = "map (\<lambda>n. make_doc fastapi n (JStr n) ''pass'') many_names",
      OF many_files_gather h2]
  show ?thesis
    using many_files_gather[of default_room]
    by (elim conjE) (simp add: length_many_names)
qed

end
